theory Spec2Isabelle
  imports Complex_Main "HOL-Library.AList" "HOL-Library.Multiset"
begin

section \<open>Data model\<close>

text \<open>
  The embedding and ranking script works on Python floats, dictionaries (which keep
  insertion order) and one-dimensional tensors. Numbers are modelled as exact reals
  (rounding, infinities and NaN are outside the model; the rounding of the metric's score is
  modelled apart, in the section on binary64), a tensor as a list of reals, a
  dictionary as an association list in insertion order that is written only through
  \<open>AList.update\<close> (a present key keeps its position and takes the new value, a new key is
  appended), and every exception as a value of \<open>py_error\<close>.
\<close>

datatype py_error = KeyError | RuntimeError | ValueError | IndexError | ZeroDivisionError

type_synonym tensor = "real list"

type_synonym ('k, 'v) dict = "('k \<times> 'v) list"

definition ebind :: "py_error + 'a \<Rightarrow> ('a \<Rightarrow> py_error + 'b) \<Rightarrow> py_error + 'b" where
  "ebind m f = (case m of Inl e \<Rightarrow> Inl e | Inr x \<Rightarrow> f x)"

definition keys :: "('k, 'v) dict \<Rightarrow> 'k list" where
  "keys d = map fst d"

definition dict_get :: "('k, 'v) dict \<Rightarrow> 'k \<Rightarrow> py_error + 'v" where
  \<comment> \<open>\<open>d[k]\<close>: raises KeyError on a missing key.\<close>
  "dict_get d k = (case map_of d k of None \<Rightarrow> Inl KeyError | Some v \<Rightarrow> Inr v)"

text \<open>One element of the JSON input array: an object with five string fields.\<close>

record item =
  item_id :: string
  query :: string
  title :: string
  details :: string
  feature_summary :: string

text \<open>The script's global dictionaries.\<close>

record caches =
  data_dict :: "(string, item) dict"
  query_emb_title :: "(string, tensor) dict"
  query_emb_details :: "(string, tensor) dict"
  query_emb_feature :: "(string, tensor) dict"
  doc_emb_title :: "(string, tensor) dict"
  doc_emb_details :: "(string, tensor) dict"
  doc_emb_feature :: "(string, tensor) dict"

section \<open>Embedding cache builder\<close>

text \<open>
  The transformer is outside the repository: \<open>emb adapter text max_length\<close> stands for
  tokenising \<open>text\<close> with truncation at \<open>max_length\<close>, running the model with \<open>adapter\<close>
  active and taking the first token's hidden state.
\<close>

type_synonym embedder = "string \<Rightarrow> string \<Rightarrow> nat \<Rightarrow> tensor"

fun build_data_dict :: "item list \<Rightarrow> (string, item) dict \<Rightarrow> (string, item) dict" where
  "build_data_dict [] dd = dd"
| "build_data_dict (it # rest) dd = build_data_dict rest (AList.update (item_id it) it dd)"

definition empty_caches :: "item list \<Rightarrow> caches" where
  "empty_caches data =
     \<lparr>data_dict = build_data_dict data [],
      query_emb_title = [], query_emb_details = [], query_emb_feature = [],
      doc_emb_title = [], doc_emb_details = [], doc_emb_feature = []\<rparr>"

definition embed_element :: "embedder \<Rightarrow> item \<Rightarrow> caches \<Rightarrow> caches" where
  "embed_element emb element st =
     (let eid = item_id element;
          query_text = query element;
          title_text = title element;
          details_text = details element;
          feature_text = feature_summary element
      in st\<lparr>query_emb_title := AList.update eid (emb ''title'' query_text 128) (query_emb_title st),
            query_emb_details := AList.update eid (emb ''details'' query_text 128) (query_emb_details st),
            query_emb_feature := AList.update eid (emb ''feature_summary'' query_text 128) (query_emb_feature st),
            doc_emb_title := AList.update eid (emb ''title'' title_text 128) (doc_emb_title st),
            doc_emb_details := AList.update eid (emb ''details'' details_text 512) (doc_emb_details st),
            doc_emb_feature := AList.update eid (emb ''feature_summary'' feature_text 512) (doc_emb_feature st)\<rparr>)"

fun embed_loop :: "embedder \<Rightarrow> item list \<Rightarrow> caches \<Rightarrow> caches" where
  "embed_loop emb [] st = st"
| "embed_loop emb (element # rest) st = embed_loop emb rest (embed_element emb element st)"

definition build_caches :: "embedder \<Rightarrow> item list \<Rightarrow> caches" where
  "build_caches emb data = embed_loop emb data (empty_caches data)"

section \<open>Composite ranker\<close>

definition dotr :: "tensor \<Rightarrow> tensor \<Rightarrow> real" where
  "dotr a b = sum_list (map (\<lambda>(x, y). x * y) (zip a b))"

definition dot_product :: "tensor \<Rightarrow> tensor \<Rightarrow> py_error + real" where
  \<comment> \<open>\<open>torch.dot\<close> raises RuntimeError when the two sizes differ.\<close>
  "dot_product a b = (if length a = length b then Inr (dotr a b) else Inl RuntimeError)"

definition UNAVAILABLE :: string where
  "UNAVAILABLE = ''[UNAVAILABLE]''"

definition doc_weights :: "item \<Rightarrow> real \<times> real \<times> real" where
  "doc_weights record =
     (if feature_summary record = UNAVAILABLE then (0.1, 0.9, 0.0) else (0.1, 0.6, 0.3))"

definition rank_score :: "caches \<Rightarrow> tensor \<Rightarrow> tensor \<Rightarrow> tensor \<Rightarrow> string \<Rightarrow> py_error + real" where
  \<comment> \<open>The body of the loop over \<open>did\<close>: the composite score of one document.\<close>
  "rank_score st q_title q_details q_feature did =
     ebind (dict_get (doc_emb_title st) did) (\<lambda>d_title.
     ebind (dict_get (doc_emb_details st) did) (\<lambda>d_details.
     ebind (dict_get (doc_emb_feature st) did) (\<lambda>d_feature.
     ebind (dict_get (data_dict st) did) (\<lambda>record.
     case doc_weights record of (w_title, w_details, w_feature) \<Rightarrow>
     ebind (dot_product q_title d_title) (\<lambda>sim_title.
     ebind (dot_product q_details d_details) (\<lambda>sim_details.
     ebind (dot_product q_feature d_feature) (\<lambda>sim_feature.
     Inr (w_title * sim_title + w_details * sim_details + w_feature * sim_feature))))))))"

fun fill_dict :: "('k \<Rightarrow> py_error + 'v) \<Rightarrow> 'k list \<Rightarrow> ('k, 'v) dict \<Rightarrow> py_error + ('k, 'v) dict" where
  \<comment> \<open>\<open>for k in ks: d[k] = f(k)\<close>, stopping at the first exception: the shape of the loops
      that fill \<open>scores\<close> and \<open>ranking\<close>.\<close>
  "fill_dict f [] d = Inr d"
| "fill_dict f (k # ks) d = ebind (f k) (\<lambda>v. fill_dict f ks (AList.update k v d))"

definition sorted_desc :: "(string, real) dict \<Rightarrow> string list" where
  \<comment> \<open>\<open>sorted(scores, key=scores.get, reverse=True)\<close>: a stable sort of the keys, highest
      score first; keys with equal scores keep their order in the dictionary.\<close>
  "sorted_desc scores = map fst (sort_key (\<lambda>p. - snd p) scores)"

definition rank_scores :: "caches \<Rightarrow> string \<Rightarrow> py_error + (string, real) dict" where
  \<comment> \<open>The dictionary \<open>scores\<close> the ranking loop builds for the query \<open>qid\<close>.\<close>
  "rank_scores st qid =
     ebind (dict_get (query_emb_title st) qid) (\<lambda>q_title.
     ebind (dict_get (query_emb_details st) qid) (\<lambda>q_details.
     ebind (dict_get (query_emb_feature st) qid) (\<lambda>q_feature.
     fill_dict (rank_score st q_title q_details q_feature) (keys (doc_emb_title st)) [])))"

definition rank :: "caches \<Rightarrow> string \<Rightarrow> py_error + string list" where
  "rank st qid = ebind (rank_scores st qid) (\<lambda>scores. Inr (sorted_desc scores))"

definition ranking :: "caches \<Rightarrow> py_error + (string, string list) dict" where
  \<comment> \<open>The dictionary written to the rankings file.\<close>
  "ranking st = fill_dict (rank st) (keys (query_emb_title st)) []"

section \<open>Weight optimizer\<close>

definition eval_score :: "caches \<Rightarrow> real \<Rightarrow> real \<Rightarrow> real \<Rightarrow> tensor \<Rightarrow> tensor \<Rightarrow> tensor \<Rightarrow> string
    \<Rightarrow> py_error + real" where
  \<comment> \<open>The body of the loop over \<open>cid\<close> in \<open>eval_metric\<close>.\<close>
  "eval_score st w_title w_details w_feature q_title q_details q_feature cid =
     ebind (ebind (dict_get (doc_emb_title st) cid) (dot_product q_title)) (\<lambda>sim_title.
     ebind (ebind (dict_get (doc_emb_details st) cid) (dot_product q_details)) (\<lambda>sim_details.
     ebind (ebind (dict_get (doc_emb_feature st) cid) (dot_product q_feature)) (\<lambda>sim_feature.
     Inr (w_title * sim_title + w_details * sim_details + w_feature * sim_feature))))"

definition eval_scores :: "caches \<Rightarrow> real \<Rightarrow> real \<Rightarrow> real \<Rightarrow> string \<Rightarrow> py_error + (string, real) dict" where
  \<comment> \<open>The dictionary \<open>scores\<close> that \<open>eval_metric\<close> builds for the query \<open>rid\<close>.\<close>
  "eval_scores st w_title w_details w_feature rid =
     ebind (dict_get (query_emb_title st) rid) (\<lambda>q_title.
     ebind (dict_get (query_emb_details st) rid) (\<lambda>q_details.
     ebind (dict_get (query_emb_feature st) rid) (\<lambda>q_feature.
     fill_dict (eval_score st w_title w_details w_feature q_title q_details q_feature)
       (keys (doc_emb_title st)) [])))"

definition eval_ranked :: "caches \<Rightarrow> real \<Rightarrow> real \<Rightarrow> real \<Rightarrow> string \<Rightarrow> py_error + string list" where
  "eval_ranked st w_title w_details w_feature rid =
     ebind (eval_scores st w_title w_details w_feature rid) (\<lambda>scores. Inr (sorted_desc scores))"

fun eval_loop :: "caches \<Rightarrow> real \<Rightarrow> real \<Rightarrow> real \<Rightarrow> string list \<Rightarrow> nat \<Rightarrow> py_error + nat" where
  "eval_loop st w_title w_details w_feature [] correct = Inr correct"
| "eval_loop st w_title w_details w_feature (rid # rids) correct =
     ebind (eval_ranked st w_title w_details w_feature rid) (\<lambda>ranked.
       eval_loop st w_title w_details w_feature rids
         (if rid \<in> set (take 10 ranked) then correct + 1 else correct))"

definition truediv :: "nat \<Rightarrow> nat \<Rightarrow> py_error + real" where
  \<comment> \<open>\<open>a / b\<close> on Python ints: raises ZeroDivisionError when \<open>b\<close> is 0.\<close>
  "truediv a b = (if b = 0 then Inl ZeroDivisionError else Inr (real a / real b))"

definition eval_metric :: "caches \<Rightarrow> real list \<Rightarrow> py_error + real" where
  \<comment> \<open>Unpacking \<open>weights\<close> into three names raises ValueError unless it has three elements.\<close>
  "eval_metric st weights =
     (case weights of
        [w_title, w_details, w_feature] \<Rightarrow>
          (let total = length (query_emb_title st)
           in ebind (eval_loop st w_title w_details w_feature (keys (query_emb_title st)) 0)
                (\<lambda>correct. truediv correct total))
      | _ \<Rightarrow> Inl ValueError)"

subsection \<open>Hill climbing\<close>

text \<open>The lines the optimizer prints, in the order of the script's \<open>print\<close> calls.\<close>

datatype hc_event =
    Initial "real list" real
  | Improved nat "real list" real
  | NoImprovement nat
  | BestWeights "real list"
  | Top10Accuracy real

record hc_state =
  current_weights :: "real list"
  current_metric :: real
  improved :: bool
  iteration :: nat
  stdout :: "hc_event list"

definition step_size :: real where
  "step_size = 0.05"

definition max_iters :: nat where
  "max_iters = 100"

definition try_candidate :: "(real list \<Rightarrow> py_error + real) \<Rightarrow> nat \<Rightarrow> real \<Rightarrow> hc_state
    \<Rightarrow> py_error + hc_state" where
  \<comment> \<open>The body of the loop over \<open>delta\<close>; \<open>ev\<close> is the metric (\<open>eval_metric\<close> in the script).\<close>
  "try_candidate ev i delta s =
     (if i < length (current_weights s) then
        (let candidate = (current_weights s)[i := current_weights s ! i + delta]
         in if candidate ! i < 0 then Inr s
            else ebind (ev candidate) (\<lambda>candidate_metric.
              if candidate_metric > current_metric s then
                Inr (s\<lparr>current_metric := candidate_metric,
                       current_weights := candidate,
                       improved := True,
                       stdout := stdout s @ [Improved (iteration s) candidate candidate_metric]\<rparr>)
              else Inr s))
      else Inl IndexError)"

fun delta_loop :: "(real list \<Rightarrow> py_error + real) \<Rightarrow> nat \<Rightarrow> real list \<Rightarrow> hc_state
    \<Rightarrow> py_error + hc_state" where
  "delta_loop ev i [] s = Inr s"
| "delta_loop ev i (delta # deltas) s = ebind (try_candidate ev i delta s) (delta_loop ev i deltas)"

fun coord_loop :: "(real list \<Rightarrow> py_error + real) \<Rightarrow> nat list \<Rightarrow> hc_state \<Rightarrow> py_error + hc_state" where
  "coord_loop ev [] s = Inr s"
| "coord_loop ev (i # is) s =
     ebind (delta_loop ev i [step_size, - step_size] s) (coord_loop ev is)"

definition hill_pass :: "(real list \<Rightarrow> py_error + real) \<Rightarrow> hc_state \<Rightarrow> py_error + hc_state" where
  \<comment> \<open>One iteration of the \<open>while\<close> loop up to the test of \<open>improved\<close>.\<close>
  "hill_pass ev s = coord_loop ev [0..<3] (s\<lparr>improved := False, iteration := iteration s + 1\<rparr>)"

lemma ebind_cong [fundef_cong]:
  "m = m' \<Longrightarrow> (\<And>x. m' = Inr x \<Longrightarrow> f x = f' x) \<Longrightarrow> ebind m f = ebind m' f'"
  by (auto simp: ebind_def split: sum.splits)

lemma try_candidate_iteration:
  "try_candidate ev i delta s = Inr s' \<Longrightarrow> iteration s' = iteration s"
  by (auto simp: try_candidate_def ebind_def Let_def split: if_splits sum.splits)

lemma delta_loop_iteration:
  "delta_loop ev i deltas s = Inr s' \<Longrightarrow> iteration s' = iteration s"
proof (induction deltas arbitrary: s)
  case Nil
  then show ?case by simp
next
  case (Cons d ds)
  then show ?case
    by (auto simp: ebind_def split: sum.splits dest: try_candidate_iteration)
qed

lemma coord_loop_iteration:
  "coord_loop ev is s = Inr s' \<Longrightarrow> iteration s' = iteration s"
proof (induction "is" arbitrary: s)
  case Nil
  then show ?case by simp
next
  case (Cons i "is")
  from Cons.prems obtain s1 where
    a: "delta_loop ev i [step_size, - step_size] s = Inr s1" and b: "coord_loop ev is s1 = Inr s'"
    by (auto simp: ebind_def split: sum.splits)
  from Cons.IH [OF b] delta_loop_iteration [OF a] show ?case by simp
qed

lemma hill_pass_iteration:
  "hill_pass ev s = Inr s' \<Longrightarrow> iteration s' = iteration s + 1"
  by (auto simp: hill_pass_def dest: coord_loop_iteration)

function hill_loop :: "(real list \<Rightarrow> py_error + real) \<Rightarrow> hc_state \<Rightarrow> py_error + hc_state" where
  "hill_loop ev s =
     (if improved s \<and> iteration s < max_iters then
        ebind (hill_pass ev s) (\<lambda>s'.
          if \<not> improved s' then
            Inr (s'\<lparr>stdout := stdout s' @ [NoImprovement (iteration s')]\<rparr>)
          else hill_loop ev s')
      else Inr s)"
  by pat_completeness auto
termination
  by (relation "measure (\<lambda>(ev, s). max_iters - iteration s)")
     (auto dest: hill_pass_iteration)

declare hill_loop.simps [simp del]

definition hill_init :: "(real list \<Rightarrow> py_error + real) \<Rightarrow> py_error + hc_state" where
  "hill_init ev =
     ebind (ev [0.1, 0.6, 0.3]) (\<lambda>m.
       Inr \<lparr>current_weights = [0.1, 0.6, 0.3], current_metric = m, improved = True,
            iteration = 0, stdout = [Initial [0.1, 0.6, 0.3] m]\<rparr>)"

definition hill_climbing :: "(real list \<Rightarrow> py_error + real) \<Rightarrow> py_error + hc_state" where
  "hill_climbing ev =
     ebind (hill_init ev) (\<lambda>s0.
     ebind (hill_loop ev s0) (\<lambda>s.
       Inr (s\<lparr>stdout := stdout s @ [BestWeights (current_weights s), Top10Accuracy (current_metric s)]\<rparr>)))"

definition optimize :: "caches \<Rightarrow> py_error + hc_state" where
  \<comment> \<open>The script from line 184 on, over the caches built before.\<close>
  "optimize st = hill_climbing (eval_metric st)"

section \<open>Dataset scraper\<close>

text \<open>
  The registry client is outside the repository. The listing is a dictionary from dataset
  id to an information dictionary; \<open>get_dataset\<close> either raises (\<open>Inl\<close> with the
  exception's text) or returns an object whose \<open>description\<close> attribute is read.
\<close>

datatype pyval = PNone | PStr string | PNum int

fun truthy :: "pyval \<Rightarrow> bool" where
  "truthy PNone = False"
| "truthy (PStr s) = (s \<noteq> [])"
| "truthy (PNum n) = (n \<noteq> 0)"

fun is_str :: "pyval \<Rightarrow> bool" where
  "is_str (PStr s) = True"
| "is_str v = False"

record dataset =
  description :: pyval

text \<open>An element of the output array; \<open>entry_id\<close> is the integer that \<open>str\<close> renders.\<close>

record dataset_entry =
  entry_id :: int
  entry_title :: pyval
  entry_description :: pyval

datatype scrape_event =
    Processed int pyval
  | Skipping int
  | ErrorFetching int string

record scrape_state =
  dataset_info_list :: "dataset_entry list"
  printed :: "scrape_event list"

definition info_get :: "(string, pyval) dict \<Rightarrow> string \<Rightarrow> pyval" where
  \<comment> \<open>\<open>d.get(k)\<close>: None on a missing key.\<close>
  "info_get d k = (case map_of d k of None \<Rightarrow> PNone | Some v \<Rightarrow> v)"

definition info_index :: "(string, pyval) dict \<Rightarrow> string \<Rightarrow> string + pyval" where
  \<comment> \<open>\<open>d[k]\<close>: raises KeyError, whose text is the key, on a missing key.\<close>
  "info_index d k = (case map_of d k of None \<Rightarrow> Inl k | Some v \<Rightarrow> Inr v)"

definition try_body :: "(int \<Rightarrow> string + dataset) \<Rightarrow> int \<Rightarrow> (string, pyval) dict \<Rightarrow> scrape_state
    \<Rightarrow> string + scrape_state" where
  \<comment> \<open>The body of \<open>try\<close>; the conjunction is evaluated left to right and stops at the first
      false operand.\<close>
  "try_body get_dataset dataset_id dataset_info st =
     (case get_dataset dataset_id of
        Inl e \<Rightarrow> Inl e
      | Inr dataset \<Rightarrow>
          if dataset_id \<noteq> 0 \<and> truthy (info_get dataset_info ''name'')
             \<and> truthy (description dataset) \<and> is_str (description dataset)
          then
            (case info_index dataset_info ''name'' of
               Inl e \<Rightarrow> Inl e
             | Inr name \<Rightarrow>
                 if is_str name then
                   Inr (st\<lparr>dataset_info_list := dataset_info_list st @
                              [\<lparr>entry_id = dataset_id, entry_title = name,
                                entry_description = description dataset\<rparr>],
                           printed := printed st @ [Processed dataset_id name]\<rparr>)
                 else Inr (st\<lparr>printed := printed st @ [Skipping dataset_id]\<rparr>))
          else Inr (st\<lparr>printed := printed st @ [Skipping dataset_id]\<rparr>))"

definition process_dataset :: "(int \<Rightarrow> string + dataset) \<Rightarrow> int \<Rightarrow> (string, pyval) dict
    \<Rightarrow> scrape_state \<Rightarrow> scrape_state" where
  \<comment> \<open>\<open>try: ... except Exception as e: print(...)\<close>.\<close>
  "process_dataset get_dataset dataset_id dataset_info st =
     (case try_body get_dataset dataset_id dataset_info st of
        Inl e \<Rightarrow> st\<lparr>printed := printed st @ [ErrorFetching dataset_id e]\<rparr>
      | Inr st' \<Rightarrow> st')"

fun scrape_loop :: "(int \<Rightarrow> string + dataset) \<Rightarrow> (int, (string, pyval) dict) dict \<Rightarrow> scrape_state
    \<Rightarrow> scrape_state" where
  "scrape_loop get_dataset [] st = st"
| "scrape_loop get_dataset ((dataset_id, dataset_info) # rest) st =
     scrape_loop get_dataset rest (process_dataset get_dataset dataset_id dataset_info st)"

definition scrape :: "(int \<Rightarrow> string + dataset) \<Rightarrow> (int, (string, pyval) dict) dict \<Rightarrow> scrape_state" where
  \<comment> \<open>The final \<open>dataset_info_list\<close> is what \<open>json.dump\<close> writes.\<close>
  "scrape get_dataset datasets_list =
     scrape_loop get_dataset datasets_list \<lparr>dataset_info_list = [], printed = []\<rparr>"

text \<open>The state in which the scrape starts.\<close>

definition empty_scrape :: scrape_state where
  "empty_scrape = \<lparr>dataset_info_list = [], printed = []\<rparr>"

section \<open>Well-formed caches\<close>

text \<open>
  Notions used to state the results: the order in which keys first appear when a dictionary
  is filled, and the invariant that the six embedding dictionaries and the record dictionary
  hold the same keys and that every vector has the same dimension.
\<close>

definition key_order :: "'k list \<Rightarrow> 'k list \<Rightarrow> 'k list" where
  "key_order ids ks = fold (\<lambda>k ks. if k \<in> set ks then ks else ks @ [k]) ids ks"

definition dims_ok :: "nat \<Rightarrow> caches \<Rightarrow> bool" where
  "dims_ok dm st \<longleftrightarrow>
     (\<forall>v \<in> snd ` set (query_emb_title st). length v = dm) \<and>
     (\<forall>v \<in> snd ` set (query_emb_details st). length v = dm) \<and>
     (\<forall>v \<in> snd ` set (query_emb_feature st). length v = dm) \<and>
     (\<forall>v \<in> snd ` set (doc_emb_title st). length v = dm) \<and>
     (\<forall>v \<in> snd ` set (doc_emb_details st). length v = dm) \<and>
     (\<forall>v \<in> snd ` set (doc_emb_feature st). length v = dm)"

definition populated :: "nat \<Rightarrow> caches \<Rightarrow> bool" where
  "populated dm st \<longleftrightarrow>
     distinct (keys (query_emb_title st)) \<and>
     keys (query_emb_details st) = keys (query_emb_title st) \<and>
     keys (query_emb_feature st) = keys (query_emb_title st) \<and>
     keys (doc_emb_title st) = keys (query_emb_title st) \<and>
     keys (doc_emb_details st) = keys (query_emb_title st) \<and>
     keys (doc_emb_feature st) = keys (query_emb_title st) \<and>
     keys (data_dict st) = keys (query_emb_title st) \<and>
     (\<forall>v \<in> snd ` set (query_emb_title st). length v = dm) \<and>
     (\<forall>v \<in> snd ` set (query_emb_details st). length v = dm) \<and>
     (\<forall>v \<in> snd ` set (query_emb_feature st). length v = dm) \<and>
     (\<forall>v \<in> snd ` set (doc_emb_title st). length v = dm) \<and>
     (\<forall>v \<in> snd ` set (doc_emb_details st). length v = dm) \<and>
     (\<forall>v \<in> snd ` set (doc_emb_feature st). length v = dm)"

section \<open>One iteration of the optimizer, in the spec's words\<close>

text \<open>
  The spec describes an iteration over a weight triple: for each of the three coordinates, in
  the order 0, 1, 2, try \<open>+ step_size\<close> and then \<open>- step_size\<close> (0.05); reject a candidate
  whose perturbed component is negative; accept a candidate whose metric strictly exceeds the
  current best, updating weights and best at once. \<open>spec_iteration\<close> follows these words;
  \<open>abs_state\<close> reads the triple, the metric and the flag off the script's state.
\<close>

type_synonym weight_vector = "real \<times> real \<times> real"

type_synonym spec_state = "weight_vector \<times> real \<times> bool"

fun perturb :: "nat \<Rightarrow> real \<Rightarrow> weight_vector \<Rightarrow> weight_vector" where
  "perturb 0 d (a, b, c) = (a + d, b, c)"
| "perturb (Suc 0) d (a, b, c) = (a, b + d, c)"
| "perturb (Suc (Suc n)) d (a, b, c) = (a, b, c + d)"

fun component :: "nat \<Rightarrow> weight_vector \<Rightarrow> real" where
  "component 0 (a, b, c) = a"
| "component (Suc 0) (a, b, c) = b"
| "component (Suc (Suc n)) (a, b, c) = c"

definition spec_candidate :: "(weight_vector \<Rightarrow> py_error + real) \<Rightarrow> nat \<Rightarrow> real \<Rightarrow> spec_state
    \<Rightarrow> py_error + spec_state" where
  "spec_candidate ev i d st =
     (case st of (w, best, imp) \<Rightarrow>
        if component i (perturb i d w) < 0 then Inr (w, best, imp)
        else (case ev (perturb i d w) of
                Inl e \<Rightarrow> Inl e
              | Inr m \<Rightarrow> if best < m then Inr (perturb i d w, m, True) else Inr (w, best, imp)))"

definition spec_iteration :: "(weight_vector \<Rightarrow> py_error + real) \<Rightarrow> weight_vector \<Rightarrow> real
    \<Rightarrow> py_error + spec_state" where
  "spec_iteration ev w best =
     ebind (spec_candidate ev 0 0.05 (w, best, False)) (\<lambda>st.
     ebind (spec_candidate ev 0 (- 0.05) st) (\<lambda>st.
     ebind (spec_candidate ev 1 0.05 st) (\<lambda>st.
     ebind (spec_candidate ev 1 (- 0.05) st) (\<lambda>st.
     ebind (spec_candidate ev 2 0.05 st) (\<lambda>st.
     spec_candidate ev 2 (- 0.05) st)))))"

definition abs_state :: "hc_state \<Rightarrow> spec_state" where
  "abs_state s =
     ((current_weights s ! 0, current_weights s ! 1, current_weights s ! 2),
      current_metric s, improved s)"

section \<open>What the optimizer prints\<close>

text \<open>
  Every assignment to \<open>current_weights\<close> and \<open>current_metric\<close> is followed by a \<open>print\<close> of
  the new values, so the printed lines hold every value the two variables take during a run,
  in order.
\<close>

fun event_metric :: "hc_event \<Rightarrow> real list" where
  "event_metric (Initial w m) = [m]"
| "event_metric (Improved n w m) = [m]"
| "event_metric e = []"

definition metric_trace :: "hc_event list \<Rightarrow> real list" where
  "metric_trace es = concat (map event_metric es)"

fun event_weights :: "hc_event \<Rightarrow> real list list" where
  "event_weights (Initial w m) = [w]"
| "event_weights (Improved n w m) = [w]"
| "event_weights (BestWeights w) = [w]"
| "event_weights e = []"

definition weights_trace :: "hc_event list \<Rightarrow> real list list" where
  "weights_trace es = concat (map event_weights es)"

definition nonneg_state :: "hc_state \<Rightarrow> bool" where
  "nonneg_state s \<longleftrightarrow>
     length (current_weights s) = 3 \<and> (\<forall>w \<in> set (current_weights s). 0 \<le> w) \<and>
     (\<forall>ws \<in> set (weights_trace (stdout s)). length ws = 3 \<and> (\<forall>w \<in> set ws. 0 \<le> w))"

definition trace_ok :: "hc_state \<Rightarrow> bool" where
  "trace_ok s \<longleftrightarrow>
     metric_trace (stdout s) \<noteq> [] \<and> sorted_wrt (<) (metric_trace (stdout s)) \<and>
     last (metric_trace (stdout s)) = current_metric s"

section \<open>The metric's score in binary64\<close>

text \<open>
  Python computes the weighted sum of \<open>eval_metric\<close> in binary64: each product and each sum is
  rounded to the nearest double, ties to even. \<open>fl\<close> rounds a real to 53 significant bits
  (\<open>binade\<close> finds the power of two at or below the magnitude, with fuel beyond the exponent
  range of binary64; overflow and subnormal numbers are not modelled); \<open>composite_f64\<close> is the
  expression \<open>w_title * sim_title + w_details * sim_details + w_feature * sim_feature\<close> with
  every operation rounded, and the three functions after it are the metric's score loop and
  ranking over it. The dot products are taken as they are (on the inputs used below, vectors
  of one small integer, \<open>torch.dot\<close> is exact).
\<close>

definition round_even :: "real \<Rightarrow> int" where
  "round_even x =
     (let f = \<lfloor>x\<rfloor>; r = x - of_int f
      in if r < 1 / 2 then f else if 1 / 2 < r then f + 1 else if even f then f else f + 1)"

fun binade :: "nat \<Rightarrow> real \<Rightarrow> real \<Rightarrow> real" where
  "binade 0 x s = s"
| "binade (Suc n) x s =
     (if 2 * s \<le> x then binade n x (2 * s) else if x < s then binade n x (s / 2) else s)"

definition fl :: "real \<Rightarrow> real" where
  "fl x =
     (if x = 0 then 0
      else (let ulp = binade 2200 \<bar>x\<bar> 1 / 2 ^ 52
            in sgn x * of_int (round_even (\<bar>x\<bar> / ulp)) * ulp))"

definition fmul :: "real \<Rightarrow> real \<Rightarrow> real" where
  "fmul a b = fl (a * b)"

definition fadd :: "real \<Rightarrow> real \<Rightarrow> real" where
  "fadd a b = fl (a + b)"

definition composite_f64 :: "real \<Rightarrow> real \<Rightarrow> real \<Rightarrow> real \<Rightarrow> real \<Rightarrow> real \<Rightarrow> real" where
  "composite_f64 w_title w_details w_feature sim_title sim_details sim_feature =
     fadd (fadd (fmul w_title sim_title) (fmul w_details sim_details)) (fmul w_feature sim_feature)"

definition eval_score_f64 :: "caches \<Rightarrow> real \<Rightarrow> real \<Rightarrow> real \<Rightarrow> tensor \<Rightarrow> tensor \<Rightarrow> tensor \<Rightarrow> string
    \<Rightarrow> py_error + real" where
  "eval_score_f64 st w_title w_details w_feature q_title q_details q_feature cid =
     ebind (ebind (dict_get (doc_emb_title st) cid) (dot_product q_title)) (\<lambda>sim_title.
     ebind (ebind (dict_get (doc_emb_details st) cid) (dot_product q_details)) (\<lambda>sim_details.
     ebind (ebind (dict_get (doc_emb_feature st) cid) (dot_product q_feature)) (\<lambda>sim_feature.
     Inr (composite_f64 w_title w_details w_feature sim_title sim_details sim_feature))))"

definition eval_scores_f64 :: "caches \<Rightarrow> real \<Rightarrow> real \<Rightarrow> real \<Rightarrow> string
    \<Rightarrow> py_error + (string, real) dict" where
  "eval_scores_f64 st w_title w_details w_feature rid =
     ebind (dict_get (query_emb_title st) rid) (\<lambda>q_title.
     ebind (dict_get (query_emb_details st) rid) (\<lambda>q_details.
     ebind (dict_get (query_emb_feature st) rid) (\<lambda>q_feature.
     fill_dict (eval_score_f64 st w_title w_details w_feature q_title q_details q_feature)
       (keys (doc_emb_title st)) [])))"

definition eval_ranked_f64 :: "caches \<Rightarrow> real \<Rightarrow> real \<Rightarrow> real \<Rightarrow> string \<Rightarrow> py_error + string list" where
  "eval_ranked_f64 st w_title w_details w_feature rid =
     ebind (eval_scores_f64 st w_title w_details w_feature rid) (\<lambda>scores. Inr (sorted_desc scores))"

section \<open>Example inputs\<close>

definition ex_emb :: embedder where
  "ex_emb adapter text n = [real (length (take n text)), real (length adapter)]"

definition ex_data :: "item list" where
  "ex_data =
     [\<lparr>item_id = ''A'', query = ''qa'', title = ''ta'', details = ''d'',
       feature_summary = ''[UNAVAILABLE]''\<rparr>,
      \<lparr>item_id = ''B'', query = ''qbb'', title = ''t'', details = ''dddd'',
       feature_summary = ''fs''\<rparr>]"

definition ex_caches :: caches where
  "ex_caches = build_caches ex_emb ex_data"

definition cx_emb :: embedder where
  "cx_emb adapter text n = [real (length (take n text))]"

definition cx_data :: "item list" where
  "cx_data =
     [\<lparr>item_id = ''B'', query = ''q'', title = [], details = [], feature_summary = ''f''\<rparr>,
      \<lparr>item_id = ''A'', query = ''q'', title = ''ttt'', details = [], feature_summary = []\<rparr>]"

definition cx_caches :: caches where
  "cx_caches = build_caches cx_emb cx_data"

definition ex_get :: "int \<Rightarrow> string + dataset" where
  "ex_get k = (if k = 2 then Inl ''timeout'' else Inr \<lparr>description = PStr ''desc''\<rparr>)"

definition ex_ok :: "int \<Rightarrow> string + dataset" where
  "ex_ok k = Inr \<lparr>description = PStr ''desc''\<rparr>"

definition ex_list :: "(int, (string, pyval) dict) dict" where
  "ex_list = [(1, [(''name'', PStr ''iris'')]), (2, [(''name'', PStr ''bad'')]),
              (3, [(''name'', PStr ''wine'')])]"

definition ex_ev :: "real list \<Rightarrow> py_error + real" where
  "ex_ev w = Inr (if w ! 0 \<ge> 0.15 then 1 else 0)"

section \<open>Basic facts\<close>

lemma ebind_Inr [simp]: "ebind (Inr x) f = f x"
  by (simp add: ebind_def)

lemma ebind_Inl [simp]: "ebind (Inl e) f = Inl e"
  by (simp add: ebind_def)

lemma ebind_Inr_iff: "ebind m f = Inr y \<longleftrightarrow> (\<exists>x. m = Inr x \<and> f x = Inr y)"
  by (cases m) simp_all

lemma dict_get_Inr_iff: "dict_get d k = Inr v \<longleftrightarrow> map_of d k = Some v"
  by (simp add: dict_get_def split: option.splits)

lemma dot_product_Inr_iff: "dot_product a b = Inr v \<longleftrightarrow> length a = length b \<and> v = dotr a b"
  by (auto simp: dot_product_def)

lemma ex_caches_eq:
  "ex_caches =
     \<lparr>data_dict = [(''A'', ex_data ! 0), (''B'', ex_data ! 1)],
      query_emb_title = [(''A'', [2, 5]), (''B'', [3, 5])],
      query_emb_details = [(''A'', [2, 7]), (''B'', [3, 7])],
      query_emb_feature = [(''A'', [2, 15]), (''B'', [3, 15])],
      doc_emb_title = [(''A'', [2, 5]), (''B'', [1, 5])],
      doc_emb_details = [(''A'', [1, 7]), (''B'', [4, 7])],
      doc_emb_feature = [(''A'', [13, 15]), (''B'', [2, 15])]\<rparr>"
  by (simp add: ex_caches_def build_caches_def empty_caches_def embed_element_def ex_emb_def
      ex_data_def Let_def)

lemma ex_rank_scores_A: "rank_scores ex_caches ''A'' = Inr [(''A'', 244 / 5), (''B'', 528 / 5)]"
  by (simp add: ex_caches_eq rank_scores_def rank_score_def dict_get_def keys_def dot_product_def
      dotr_def doc_weights_def UNAVAILABLE_def ex_data_def)

subsection \<open>Filling a dictionary\<close>

lemma fill_dict_notin:
  "fill_dict f ks acc = Inr res \<Longrightarrow> k \<notin> set ks \<Longrightarrow> map_of res k = map_of acc k"
proof (induction ks arbitrary: acc)
  case Nil
  then show ?case by simp
next
  case (Cons x xs)
  from Cons.prems(1) obtain v where v: "f x = Inr v"
    and rest: "fill_dict f xs (AList.update x v acc) = Inr res"
    by (auto simp: ebind_Inr_iff)
  from Cons.prems(2) have "k \<noteq> x" "k \<notin> set xs" by auto
  with Cons.IH [OF rest] show ?case by (simp add: update_conv')
qed

lemma fill_dict_in:
  "fill_dict f ks acc = Inr res \<Longrightarrow> k \<in> set ks \<Longrightarrow> \<exists>v. f k = Inr v \<and> map_of res k = Some v"
proof (induction ks arbitrary: acc)
  case Nil
  then show ?case by simp
next
  case (Cons x xs)
  from Cons.prems(1) obtain v where v: "f x = Inr v"
    and rest: "fill_dict f xs (AList.update x v acc) = Inr res"
    by (auto simp: ebind_Inr_iff)
  show ?case
  proof (cases "k \<in> set xs")
    case True
    then show ?thesis using Cons.IH [OF rest] by simp
  next
    case False
    with Cons.prems(2) have "k = x" by simp
    with fill_dict_notin [OF rest False] v show ?thesis by (simp add: update_conv')
  qed
qed

subsection \<open>The score of one pair in the ranking pass\<close>

lemma rank_score_Inr_iff:
  "rank_score st q_title q_details q_feature did = Inr v \<longleftrightarrow>
     (\<exists>d_title d_details d_feature r.
        map_of (doc_emb_title st) did = Some d_title \<and>
        map_of (doc_emb_details st) did = Some d_details \<and>
        map_of (doc_emb_feature st) did = Some d_feature \<and>
        map_of (data_dict st) did = Some r \<and>
        length q_title = length d_title \<and> length q_details = length d_details \<and>
        length q_feature = length d_feature \<and>
        v = fst (doc_weights r) * dotr q_title d_title
          + fst (snd (doc_weights r)) * dotr q_details d_details
          + snd (snd (doc_weights r)) * dotr q_feature d_feature)"
  unfolding rank_score_def
  by (auto simp: ebind_Inr_iff dict_get_Inr_iff dot_product_Inr_iff case_prod_beta)

section \<open>Claims\<close>

text \<open>
  C1. Whenever the ranking pass has computed the dictionary \<open>scores\<close> of a query \<open>q\<close>, then
  for every document \<open>d\<close> of the caches the stored score is
  \<open>w_title * dot(q_title, d_title) + w_details * dot(q_details, d_details)
   + w_feature * dot(q_feature, d_feature)\<close> over vectors of equal lengths, where the weights are
  (0.1, 0.9, 0.0) when the document's \<open>feature_summary\<close> is \<open>[UNAVAILABLE]\<close>, in which case the
  feature term is exactly 0, and (0.1, 0.6, 0.3) otherwise.
\<close>

theorem rank_composite_score:
  assumes "rank_scores st q = Inr scores"
    and "map_of (query_emb_title st) q = Some q_title"
    and "map_of (query_emb_details st) q = Some q_details"
    and "map_of (query_emb_feature st) q = Some q_feature"
    and "map_of (doc_emb_title st) d = Some d_title"
    and "map_of (doc_emb_details st) d = Some d_details"
    and "map_of (doc_emb_feature st) d = Some d_feature"
    and "map_of (data_dict st) d = Some r"
    and "(w_title, w_details, w_feature) =
           (if feature_summary r = ''[UNAVAILABLE]'' then (0.1, 0.9, 0.0) else (0.1, 0.6, 0.3))"
  shows "map_of scores d =
           Some (w_title * dotr q_title d_title + w_details * dotr q_details d_details
                 + w_feature * dotr q_feature d_feature)
         \<and> length q_title = length d_title \<and> length q_details = length d_details
         \<and> length q_feature = length d_feature
         \<and> (feature_summary r = ''[UNAVAILABLE]'' \<longrightarrow> w_feature * dotr q_feature d_feature = 0)"
proof -
  from assms(1-4) have loop:
    "fill_dict (rank_score st q_title q_details q_feature) (keys (doc_emb_title st)) [] = Inr scores"
    by (simp add: rank_scores_def dict_get_def)
  from assms(5) have "d \<in> set (keys (doc_emb_title st))"
    by (auto simp: keys_def dest: map_of_SomeD intro: rev_image_eqI)
  from fill_dict_in [OF loop this] obtain v where
    v: "rank_score st q_title q_details q_feature d = Inr v" and m: "map_of scores d = Some v"
    by blast
  from v assms(5-8) have len: "length q_title = length d_title" "length q_details = length d_details"
       "length q_feature = length d_feature"
    and veq: "v = fst (doc_weights r) * dotr q_title d_title
          + fst (snd (doc_weights r)) * dotr q_details d_details
          + snd (snd (doc_weights r)) * dotr q_feature d_feature"
    unfolding rank_score_Inr_iff by auto
  from assms(9) have w: "doc_weights r = (w_title, w_details, w_feature)"
    by (simp add: doc_weights_def UNAVAILABLE_def)
  from assms(9) have z: "feature_summary r = ''[UNAVAILABLE]'' \<Longrightarrow> w_feature = 0"
    by simp
  show ?thesis using m veq len w z by simp
qed

theorem rank_composite_score_witness:
  "rank_scores ex_caches ''A'' = Inr [(''A'', 244 / 5), (''B'', 528 / 5)]
   \<and> map_of [(''A'', 244 / 5 :: real), (''B'', 528 / 5)] ''A''
       = Some (0.1 * dotr [2, 5] [2, 5] + 0.9 * dotr [2, 7] [1, 7] + 0.0 * dotr [2, 15] [13, 15])
   \<and> feature_summary (ex_data ! 0) = ''[UNAVAILABLE]''
   \<and> (0.0 :: real) * dotr [2, 15] [13, 15] = 0"
  using rank_composite_score [of ex_caches "''A''" "[(''A'', 244 / 5), (''B'', 528 / 5)]"
      "[2, 5]" "[2, 7]" "[2, 15]" "''A''" "[2, 5]" "[1, 7]" "[13, 15]" "ex_data ! 0" "0.1" "0.9" "0.0"]
    ex_rank_scores_A
  by (simp add: ex_caches_eq ex_data_def)

subsection \<open>The score of one pair in the metric\<close>

lemma eval_score_Inr_iff:
  "eval_score st w_title w_details w_feature q_title q_details q_feature cid = Inr v \<longleftrightarrow>
     (\<exists>d_title d_details d_feature.
        map_of (doc_emb_title st) cid = Some d_title \<and>
        map_of (doc_emb_details st) cid = Some d_details \<and>
        map_of (doc_emb_feature st) cid = Some d_feature \<and>
        length q_title = length d_title \<and> length q_details = length d_details \<and>
        length q_feature = length d_feature \<and>
        v = w_title * dotr q_title d_title + w_details * dotr q_details d_details
          + w_feature * dotr q_feature d_feature)"
  unfolding eval_score_def
  by (auto simp: ebind_Inr_iff dict_get_Inr_iff dot_product_Inr_iff)

lemma eval_score_data_dict:
  "eval_score (st\<lparr>data_dict := dd\<rparr>) = eval_score st"
  by (intro ext) (simp add: eval_score_def)

lemma eval_scores_data_dict:
  "eval_scores (st\<lparr>data_dict := dd\<rparr>) w_title w_details w_feature q
     = eval_scores st w_title w_details w_feature q"
  by (simp add: eval_scores_def eval_score_data_dict)

lemma ex_eval_scores_A:
  "eval_scores ex_caches 0.1 0.6 0.3 ''A'' = Inr [(''A'', 544 / 5), (''B'', 528 / 5)]"
  by (simp add: ex_caches_eq eval_scores_def eval_score_def dict_get_def keys_def dot_product_def
      dotr_def)

text \<open>
  C2. \<open>eval_metric\<close> scores every pair with the one weight triple it was given: the score it
  stores for \<open>(q, d)\<close> is the weighted sum under that triple whatever the document's
  \<open>feature_summary\<close> is (the record dictionary is not read at all), so on an input with an
  \<open>[UNAVAILABLE]\<close> document its scores under (0.1, 0.6, 0.3) differ from those of the ranking
  pass.
\<close>

theorem eval_scores_global_weights:
  assumes "eval_scores st w_title w_details w_feature q = Inr scores"
    and "map_of (query_emb_title st) q = Some q_title"
    and "map_of (query_emb_details st) q = Some q_details"
    and "map_of (query_emb_feature st) q = Some q_feature"
    and "map_of (doc_emb_title st) d = Some d_title"
    and "map_of (doc_emb_details st) d = Some d_details"
    and "map_of (doc_emb_feature st) d = Some d_feature"
  shows "map_of scores d =
           Some (w_title * dotr q_title d_title + w_details * dotr q_details d_details
                 + w_feature * dotr q_feature d_feature)
         \<and> eval_scores (st\<lparr>data_dict := dd\<rparr>) w_title w_details w_feature q = Inr scores
         \<and> (\<exists>emb data q' d' r scores_eval scores_rank.
               map_of (data_dict (build_caches emb data)) d' = Some r
             \<and> feature_summary r = ''[UNAVAILABLE]''
             \<and> eval_scores (build_caches emb data) 0.1 0.6 0.3 q' = Inr scores_eval
             \<and> rank_scores (build_caches emb data) q' = Inr scores_rank
             \<and> map_of scores_eval d' \<noteq> map_of scores_rank d')"
proof -
  from assms(1-4) have loop:
    "fill_dict (eval_score st w_title w_details w_feature q_title q_details q_feature)
       (keys (doc_emb_title st)) [] = Inr scores"
    by (simp add: eval_scores_def dict_get_def)
  from assms(5) have "d \<in> set (keys (doc_emb_title st))"
    by (auto simp: keys_def dest: map_of_SomeD intro: rev_image_eqI)
  from fill_dict_in [OF loop this] obtain v where
    v: "eval_score st w_title w_details w_feature q_title q_details q_feature d = Inr v"
    and m: "map_of scores d = Some v"
    by blast
  from v assms(5-7) have
    "v = w_title * dotr q_title d_title + w_details * dotr q_details d_details
          + w_feature * dotr q_feature d_feature"
    unfolding eval_score_Inr_iff by auto
  with m have one: "map_of scores d =
           Some (w_title * dotr q_title d_title + w_details * dotr q_details d_details
                 + w_feature * dotr q_feature d_feature)"
    by simp
  have two: "eval_scores (st\<lparr>data_dict := dd\<rparr>) w_title w_details w_feature q = Inr scores"
    using assms(1) by (simp add: eval_scores_data_dict)
  have "map_of (data_dict (build_caches ex_emb ex_data)) ''A'' = Some (ex_data ! 0)
      \<and> feature_summary (ex_data ! 0) = ''[UNAVAILABLE]''
      \<and> eval_scores (build_caches ex_emb ex_data) 0.1 0.6 0.3 ''A''
           = Inr [(''A'', 544 / 5), (''B'', 528 / 5)]
      \<and> rank_scores (build_caches ex_emb ex_data) ''A'' = Inr [(''A'', 244 / 5), (''B'', 528 / 5)]
      \<and> map_of [(''A'', 544 / 5 :: real), (''B'', 528 / 5)] ''A''
           \<noteq> map_of [(''A'', 244 / 5), (''B'', 528 / 5)] ''A''"
    using ex_eval_scores_A ex_rank_scores_A
    by (simp add: ex_caches_def [symmetric] ex_caches_eq) (simp add: ex_data_def)
  then have three: "\<exists>emb data q' d' r scores_eval scores_rank.
               map_of (data_dict (build_caches emb data)) d' = Some r
             \<and> feature_summary r = ''[UNAVAILABLE]''
             \<and> eval_scores (build_caches emb data) 0.1 0.6 0.3 q' = Inr scores_eval
             \<and> rank_scores (build_caches emb data) q' = Inr scores_rank
             \<and> map_of scores_eval d' \<noteq> map_of scores_rank d'"
    by blast
  from one two three show ?thesis by blast
qed

theorem eval_scores_global_weights_witness:
  "eval_scores ex_caches 0.1 0.6 0.3 ''A'' = Inr [(''A'', 544 / 5), (''B'', 528 / 5)]
   \<and> map_of [(''A'', 544 / 5 :: real), (''B'', 528 / 5)] ''A''
       = Some (0.1 * dotr [2, 5] [2, 5] + 0.6 * dotr [2, 7] [1, 7] + 0.3 * dotr [2, 15] [13, 15])
   \<and> eval_scores (ex_caches\<lparr>data_dict := []\<rparr>) 0.1 0.6 0.3 ''A''
       = Inr [(''A'', 544 / 5), (''B'', 528 / 5)]"
  using eval_scores_global_weights [of ex_caches "0.1" "0.6" "0.3" "''A''"
      "[(''A'', 544 / 5), (''B'', 528 / 5)]" "[2, 5]" "[2, 7]" "[2, 15]" "''A''"
      "[2, 5]" "[1, 7]" "[13, 15]" "[]"]
    ex_eval_scores_A
  by (simp add: ex_caches_eq)

subsection \<open>The caches the builder produces\<close>

lemma keys_update: "keys (AList.update k v d) = (if k \<in> set (keys d) then keys d else keys d @ [k])"
  by (simp add: keys_def update_keys)

lemma values_update: "snd ` set (AList.update k v d) \<subseteq> insert v (snd ` set d)"
  by (induction d) auto

lemma key_order_Cons: "key_order (k # ids) ks = key_order ids (if k \<in> set ks then ks else ks @ [k])"
  by (simp add: key_order_def)

lemma key_order_Nil: "key_order [] ks = ks"
  by (simp add: key_order_def)

lemma distinct_key_order: "distinct ks \<Longrightarrow> distinct (key_order ids ks)"
  by (induction ids arbitrary: ks) (simp_all add: key_order_Cons key_order_Nil)

lemma set_key_order: "set (key_order ids ks) = set ids \<union> set ks"
  by (induction ids arbitrary: ks) (auto simp: key_order_Cons key_order_Nil)

lemma keys_build_data_dict:
  "keys (build_data_dict data dd) = key_order (map item_id data) (keys dd)"
  by (induction data arbitrary: dd) (simp_all add: key_order_Cons key_order_Nil keys_update)

lemma keys_embed_element:
  "keys (query_emb_title (embed_element emb e st)) = key_order [item_id e] (keys (query_emb_title st))"
  "keys (query_emb_details (embed_element emb e st)) = key_order [item_id e] (keys (query_emb_details st))"
  "keys (query_emb_feature (embed_element emb e st)) = key_order [item_id e] (keys (query_emb_feature st))"
  "keys (doc_emb_title (embed_element emb e st)) = key_order [item_id e] (keys (doc_emb_title st))"
  "keys (doc_emb_details (embed_element emb e st)) = key_order [item_id e] (keys (doc_emb_details st))"
  "keys (doc_emb_feature (embed_element emb e st)) = key_order [item_id e] (keys (doc_emb_feature st))"
  by (simp_all add: embed_element_def Let_def keys_update key_order_Cons key_order_Nil)

lemma keys_embed_loop:
  "keys (query_emb_title (embed_loop emb data st)) = key_order (map item_id data) (keys (query_emb_title st))
 \<and> keys (query_emb_details (embed_loop emb data st)) = key_order (map item_id data) (keys (query_emb_details st))
 \<and> keys (query_emb_feature (embed_loop emb data st)) = key_order (map item_id data) (keys (query_emb_feature st))
 \<and> keys (doc_emb_title (embed_loop emb data st)) = key_order (map item_id data) (keys (doc_emb_title st))
 \<and> keys (doc_emb_details (embed_loop emb data st)) = key_order (map item_id data) (keys (doc_emb_details st))
 \<and> keys (doc_emb_feature (embed_loop emb data st)) = key_order (map item_id data) (keys (doc_emb_feature st))"
proof (induction data arbitrary: st)
  case Nil
  show ?case by (simp add: key_order_Nil)
next
  case (Cons e data)
  show ?case
    using Cons.IH [of "embed_element emb e st"]
    by (simp add: keys_embed_element key_order_Cons key_order_Nil)
qed

lemma data_dict_embed_loop: "data_dict (embed_loop emb data st) = data_dict st"
  by (induction data arbitrary: st) (simp_all add: embed_element_def Let_def)

lemma values_update_dim:
  assumes "\<forall>v \<in> snd ` set d. length v = dm" and "length w = dm"
  shows "\<forall>v \<in> snd ` set (AList.update k w d). length v = dm"
proof
  fix v assume "v \<in> snd ` set (AList.update k w d)"
  with values_update [of k w d] have "v = w \<or> v \<in> snd ` set d" by blast
  with assms show "length v = dm" by blast
qed

lemma embed_element_sel:
  "query_emb_title (embed_element emb e st)
     = AList.update (item_id e) (emb ''title'' (query e) 128) (query_emb_title st)"
  "query_emb_details (embed_element emb e st)
     = AList.update (item_id e) (emb ''details'' (query e) 128) (query_emb_details st)"
  "query_emb_feature (embed_element emb e st)
     = AList.update (item_id e) (emb ''feature_summary'' (query e) 128) (query_emb_feature st)"
  "doc_emb_title (embed_element emb e st)
     = AList.update (item_id e) (emb ''title'' (title e) 128) (doc_emb_title st)"
  "doc_emb_details (embed_element emb e st)
     = AList.update (item_id e) (emb ''details'' (details e) 512) (doc_emb_details st)"
  "doc_emb_feature (embed_element emb e st)
     = AList.update (item_id e) (emb ''feature_summary'' (feature_summary e) 512) (doc_emb_feature st)"
  "data_dict (embed_element emb e st) = data_dict st"
  by (simp_all add: embed_element_def Let_def)

lemma dims_ok_embed_element:
  assumes e: "\<And>a t n. length (emb a t n) = dm" and d: "dims_ok dm st"
  shows "dims_ok dm (embed_element emb x st)"
proof -
  have
    "\<forall>v \<in> snd ` set (query_emb_title st). length v = dm"
    "\<forall>v \<in> snd ` set (query_emb_details st). length v = dm"
    "\<forall>v \<in> snd ` set (query_emb_feature st). length v = dm"
    "\<forall>v \<in> snd ` set (doc_emb_title st). length v = dm"
    "\<forall>v \<in> snd ` set (doc_emb_details st). length v = dm"
    "\<forall>v \<in> snd ` set (doc_emb_feature st). length v = dm"
    using d by (simp_all add: dims_ok_def)
  then show ?thesis
    unfolding dims_ok_def embed_element_sel
    by (intro conjI values_update_dim e)
qed

lemma dims_ok_embed_loop:
  assumes e: "\<And>a t n. length (emb a t n) = dm"
  shows "dims_ok dm st \<Longrightarrow> dims_ok dm (embed_loop emb data st)"
proof (induction data arbitrary: st)
  case Nil
  then show ?case by simp
next
  case (Cons x data)
  have "dims_ok dm (embed_element emb x st)"
    by (rule dims_ok_embed_element [OF e Cons.prems])
  from Cons.IH [OF this] show ?case by simp
qed

lemma keys_build_caches:
  "keys (query_emb_title (build_caches emb data)) = key_order (map item_id data) []"
  "keys (query_emb_details (build_caches emb data)) = key_order (map item_id data) []"
  "keys (query_emb_feature (build_caches emb data)) = key_order (map item_id data) []"
  "keys (doc_emb_title (build_caches emb data)) = key_order (map item_id data) []"
  "keys (doc_emb_details (build_caches emb data)) = key_order (map item_id data) []"
  "keys (doc_emb_feature (build_caches emb data)) = key_order (map item_id data) []"
  "keys (data_dict (build_caches emb data)) = key_order (map item_id data) []"
proof -
  have e: "keys (query_emb_title (empty_caches data)) = []" "keys (query_emb_details (empty_caches data)) = []"
    "keys (query_emb_feature (empty_caches data)) = []" "keys (doc_emb_title (empty_caches data)) = []"
    "keys (doc_emb_details (empty_caches data)) = []" "keys (doc_emb_feature (empty_caches data)) = []"
    by (simp_all add: empty_caches_def keys_def)
  note k = keys_embed_loop [of emb data "empty_caches data", unfolded e, folded build_caches_def]
  show "keys (query_emb_title (build_caches emb data)) = key_order (map item_id data) []"
    using k by blast
  show "keys (query_emb_details (build_caches emb data)) = key_order (map item_id data) []"
    using k by blast
  show "keys (query_emb_feature (build_caches emb data)) = key_order (map item_id data) []"
    using k by blast
  show "keys (doc_emb_title (build_caches emb data)) = key_order (map item_id data) []"
    using k by blast
  show "keys (doc_emb_details (build_caches emb data)) = key_order (map item_id data) []"
    using k by blast
  show "keys (doc_emb_feature (build_caches emb data)) = key_order (map item_id data) []"
    using k by blast
  have "keys (data_dict (build_caches emb data)) = key_order (map item_id data) (keys ([] :: (string, item) dict))"
    unfolding build_caches_def data_dict_embed_loop
    by (simp add: empty_caches_def keys_build_data_dict)
  then show "keys (data_dict (build_caches emb data)) = key_order (map item_id data) []"
    by (simp add: keys_def)
qed

lemma populated_build_caches:
  assumes "\<And>a t n. length (emb a t n) = dm"
  shows "populated dm (build_caches emb data)"
proof -
  have "dims_ok dm (embed_loop emb data (empty_caches data))"
    by (rule dims_ok_embed_loop [OF assms]) (simp add: dims_ok_def empty_caches_def)
  then have d: "dims_ok dm (build_caches emb data)"
    by (simp add: build_caches_def)
  have dk: "distinct (key_order (map item_id data) [])"
    by (simp add: distinct_key_order)
  show ?thesis
    unfolding populated_def keys_build_caches
    using d dk unfolding dims_ok_def by blast
qed

subsection \<open>Loops over populated caches\<close>

lemma update_append: "k \<notin> set (keys acc) \<Longrightarrow> AList.update k v acc = acc @ [(k, v)]"
  by (induction acc) (auto simp: keys_def)

lemma fill_dict_eq:
  "(\<And>k. k \<in> set ks \<Longrightarrow> f k = Inr (g k)) \<Longrightarrow> distinct ks \<Longrightarrow> set ks \<inter> set (keys acc) = {}
   \<Longrightarrow> fill_dict f ks acc = Inr (acc @ map (\<lambda>k. (k, g k)) ks)"
proof (induction ks arbitrary: acc)
  case Nil
  then show ?case by simp
next
  case (Cons k ks)
  have fk: "f k = Inr (g k)" by (rule Cons.prems(1)) simp
  have notin: "k \<notin> set (keys acc)" using Cons.prems(3) by auto
  have upd: "AList.update k (g k) acc = acc @ [(k, g k)]" by (rule update_append [OF notin])
  have disj: "set ks \<inter> set (keys (acc @ [(k, g k)])) = {}"
    using Cons.prems(2,3) by (auto simp: keys_def)
  have "fill_dict f ks (acc @ [(k, g k)]) = Inr ((acc @ [(k, g k)]) @ map (\<lambda>k. (k, g k)) ks)"
    using Cons.prems(1,2) disj by (intro Cons.IH) auto
  then show ?case by (simp add: fk upd)
qed

lemma fill_dict_total:
  assumes "\<And>k. k \<in> set ks \<Longrightarrow> \<exists>v. f k = Inr v" and "distinct ks"
  shows "fill_dict f ks [] = Inr (map (\<lambda>k. (k, projr (f k))) ks)"
proof -
  have "\<And>k. k \<in> set ks \<Longrightarrow> f k = Inr (projr (f k))"
    using assms(1) by fastforce
  from fill_dict_eq [of ks f "\<lambda>k. projr (f k)" "[]", OF this assms(2)]
  show ?thesis by (simp add: keys_def)
qed

lemma map_of_keys: "k \<in> set (keys d) \<Longrightarrow> \<exists>v. map_of d k = Some v \<and> v \<in> snd ` set d"
proof -
  assume "k \<in> set (keys d)"
  then have "map_of d k \<noteq> None" by (simp add: keys_def map_of_eq_None_iff)
  then obtain v where v: "map_of d k = Some v" by blast
  from map_of_SomeD [OF v] have "v \<in> snd ` set d" by force
  with v show ?thesis by blast
qed

lemma map_of_mk: "k \<in> set ks \<Longrightarrow> map_of (map (\<lambda>k. (k, g k)) ks) k = Some (g k)"
  by (induction ks) auto

lemma keys_mk: "keys (map (\<lambda>k. (k, g k)) ks) = ks"
  by (simp add: keys_def comp_def)

lemma insort_key_map:
  "insort_key f (h x) (map h xs) = map h (insort_key (\<lambda>y. f (h y)) x xs)"
  by (induction xs) auto

lemma sort_key_map: "sort_key f (map h xs) = map h (sort_key (\<lambda>y. f (h y)) xs)"
  by (induction xs) (simp_all add: insort_key_map)

lemma sorted_desc_mk: "sorted_desc (map (\<lambda>d. (d, g d)) ks) = sort_key (\<lambda>d. - g d) ks"
  by (simp add: sorted_desc_def sort_key_map comp_def)

lemma populated_dims_ok: "populated dm st \<Longrightarrow> dims_ok dm st"
  by (simp add: populated_def dims_ok_def)

lemma populated_dims:
  assumes "populated dm st"
  shows "v \<in> snd ` set (query_emb_title st) \<Longrightarrow> length v = dm"
    and "v \<in> snd ` set (query_emb_details st) \<Longrightarrow> length v = dm"
    and "v \<in> snd ` set (query_emb_feature st) \<Longrightarrow> length v = dm"
    and "v \<in> snd ` set (doc_emb_title st) \<Longrightarrow> length v = dm"
    and "v \<in> snd ` set (doc_emb_details st) \<Longrightarrow> length v = dm"
    and "v \<in> snd ` set (doc_emb_feature st) \<Longrightarrow> length v = dm"
  using populated_dims_ok [OF assms] by (auto simp: dims_ok_def)

lemma populated_query:
  assumes p: "populated dm st" and q: "q \<in> set (keys (query_emb_title st))"
  shows "\<exists>q_title q_details q_feature.
           map_of (query_emb_title st) q = Some q_title \<and> length q_title = dm \<and>
           map_of (query_emb_details st) q = Some q_details \<and> length q_details = dm \<and>
           map_of (query_emb_feature st) q = Some q_feature \<and> length q_feature = dm"
proof -
  from p q have q2: "q \<in> set (keys (query_emb_details st))" and q3: "q \<in> set (keys (query_emb_feature st))"
    by (simp_all add: populated_def)
  from map_of_keys [OF q] obtain a where a: "map_of (query_emb_title st) q = Some a"
    "a \<in> snd ` set (query_emb_title st)" by blast
  from map_of_keys [OF q2] obtain b where b: "map_of (query_emb_details st) q = Some b"
    "b \<in> snd ` set (query_emb_details st)" by blast
  from map_of_keys [OF q3] obtain c where c: "map_of (query_emb_feature st) q = Some c"
    "c \<in> snd ` set (query_emb_feature st)" by blast
  from a(2) have "length a = dm" by (rule populated_dims(1) [OF p])
  moreover from b(2) have "length b = dm" by (rule populated_dims(2) [OF p])
  moreover from c(2) have "length c = dm" by (rule populated_dims(3) [OF p])
  ultimately show ?thesis using a(1) b(1) c(1) by blast
qed

lemma populated_doc:
  assumes p: "populated dm st" and d: "d \<in> set (keys (doc_emb_title st))"
  shows "\<exists>d_title d_details d_feature r.
           map_of (doc_emb_title st) d = Some d_title \<and> length d_title = dm \<and>
           map_of (doc_emb_details st) d = Some d_details \<and> length d_details = dm \<and>
           map_of (doc_emb_feature st) d = Some d_feature \<and> length d_feature = dm \<and>
           map_of (data_dict st) d = Some r"
proof -
  from p d have d2: "d \<in> set (keys (doc_emb_details st))" and d3: "d \<in> set (keys (doc_emb_feature st))"
    and d4: "d \<in> set (keys (data_dict st))"
    by (simp_all add: populated_def)
  from map_of_keys [OF d] obtain a where a: "map_of (doc_emb_title st) d = Some a"
    "a \<in> snd ` set (doc_emb_title st)" by blast
  from map_of_keys [OF d2] obtain b where b: "map_of (doc_emb_details st) d = Some b"
    "b \<in> snd ` set (doc_emb_details st)" by blast
  from map_of_keys [OF d3] obtain c where c: "map_of (doc_emb_feature st) d = Some c"
    "c \<in> snd ` set (doc_emb_feature st)" by blast
  from map_of_keys [OF d4] obtain r where r: "map_of (data_dict st) d = Some r" by blast
  from a(2) have "length a = dm" by (rule populated_dims(4) [OF p])
  moreover from b(2) have "length b = dm" by (rule populated_dims(5) [OF p])
  moreover from c(2) have "length c = dm" by (rule populated_dims(6) [OF p])
  ultimately show ?thesis using a(1) b(1) c(1) r by blast
qed

lemma rank_score_populated:
  assumes p: "populated dm st" and d: "d \<in> set (keys (doc_emb_title st))"
    and l: "length q_title = dm" "length q_details = dm" "length q_feature = dm"
  shows "\<exists>v. rank_score st q_title q_details q_feature d = Inr v"
proof -
  from populated_doc [OF p d] obtain a b c r where
    "map_of (doc_emb_title st) d = Some a" "length a = dm"
    "map_of (doc_emb_details st) d = Some b" "length b = dm"
    "map_of (doc_emb_feature st) d = Some c" "length c = dm"
    "map_of (data_dict st) d = Some r" by blast
  with l show ?thesis unfolding rank_score_Inr_iff by simp
qed

lemma eval_score_populated:
  assumes p: "populated dm st" and d: "d \<in> set (keys (doc_emb_title st))"
    and l: "length q_title = dm" "length q_details = dm" "length q_feature = dm"
  shows "\<exists>v. eval_score st w_title w_details w_feature q_title q_details q_feature d = Inr v"
proof -
  from populated_doc [OF p d] obtain a b c r where
    "map_of (doc_emb_title st) d = Some a" "length a = dm"
    "map_of (doc_emb_details st) d = Some b" "length b = dm"
    "map_of (doc_emb_feature st) d = Some c" "length c = dm"
    "map_of (data_dict st) d = Some r" by blast
  with l show ?thesis unfolding eval_score_Inr_iff by simp
qed

lemma populated_distinct_docs: "populated dm st \<Longrightarrow> distinct (keys (doc_emb_title st))"
  by (simp add: populated_def)

lemma rank_scores_populated:
  assumes p: "populated dm st" and q: "q \<in> set (keys (query_emb_title st))"
  shows "\<exists>g. rank_scores st q = Inr (map (\<lambda>d. (d, g d)) (keys (doc_emb_title st)))"
proof -
  from populated_query [OF p q] obtain a b c where
    m: "map_of (query_emb_title st) q = Some a" "map_of (query_emb_details st) q = Some b"
       "map_of (query_emb_feature st) q = Some c"
    and l: "length a = dm" "length b = dm" "length c = dm" by blast
  have "fill_dict (rank_score st a b c) (keys (doc_emb_title st)) []
      = Inr (map (\<lambda>k. (k, projr (rank_score st a b c k))) (keys (doc_emb_title st)))"
    by (rule fill_dict_total) (auto intro: rank_score_populated [OF p _ l] populated_distinct_docs [OF p])
  with m have "rank_scores st q
      = Inr (map (\<lambda>k. (k, projr (rank_score st a b c k))) (keys (doc_emb_title st)))"
    by (simp add: rank_scores_def dict_get_def)
  then show ?thesis by (rule exI [where x = "\<lambda>k. projr (rank_score st a b c k)"])
qed

lemma eval_scores_populated:
  assumes p: "populated dm st" and q: "q \<in> set (keys (query_emb_title st))"
  shows "\<exists>g. eval_scores st w_title w_details w_feature q
           = Inr (map (\<lambda>d. (d, g d)) (keys (doc_emb_title st)))"
proof -
  from populated_query [OF p q] obtain a b c where
    m: "map_of (query_emb_title st) q = Some a" "map_of (query_emb_details st) q = Some b"
       "map_of (query_emb_feature st) q = Some c"
    and l: "length a = dm" "length b = dm" "length c = dm" by blast
  have "fill_dict (eval_score st w_title w_details w_feature a b c) (keys (doc_emb_title st)) []
      = Inr (map (\<lambda>k. (k, projr (eval_score st w_title w_details w_feature a b c k)))
               (keys (doc_emb_title st)))"
    by (rule fill_dict_total) (auto intro: eval_score_populated [OF p _ l] populated_distinct_docs [OF p])
  with m have "eval_scores st w_title w_details w_feature q
      = Inr (map (\<lambda>k. (k, projr (eval_score st w_title w_details w_feature a b c k)))
               (keys (doc_emb_title st)))"
    by (simp add: eval_scores_def dict_get_def)
  then show ?thesis
    by (rule exI [where x = "\<lambda>k. projr (eval_score st w_title w_details w_feature a b c k)"])
qed

lemma rank_populated:
  assumes p: "populated dm st" and q: "q \<in> set (keys (query_emb_title st))"
  shows "\<exists>ds. rank st q = Inr ds"
proof -
  from rank_scores_populated [OF p q] obtain g where
    "rank_scores st q = Inr (map (\<lambda>d. (d, g d)) (keys (doc_emb_title st)))" by blast
  then show ?thesis by (simp add: rank_def)
qed

lemma ranking_populated:
  assumes p: "populated dm st" and q: "q \<in> set (keys (query_emb_title st))"
    and r: "rank st q = Inr ds"
  shows "\<exists>r. ranking st = Inr r \<and> map_of r q = Some ds"
proof -
  have d: "distinct (keys (query_emb_title st))" using p by (simp add: populated_def)
  have "fill_dict (rank st) (keys (query_emb_title st)) []
      = Inr (map (\<lambda>k. (k, projr (rank st k))) (keys (query_emb_title st)))"
    by (rule fill_dict_total) (auto intro: rank_populated [OF p] d)
  then have a: "ranking st = Inr (map (\<lambda>k. (k, projr (rank st k))) (keys (query_emb_title st)))"
    by (simp add: ranking_def)
  have "map_of (map (\<lambda>k. (k, projr (rank st k))) (keys (query_emb_title st))) q = Some (projr (rank st q))"
    by (rule map_of_mk [OF q])
  with r have "map_of (map (\<lambda>k. (k, projr (rank st k))) (keys (query_emb_title st))) q = Some ds"
    by simp
  with a show ?thesis by blast
qed

lemma sort_desc_props:
  fixes g :: "'a \<Rightarrow> real"
  shows "mset (sort_key (\<lambda>d. - g d) ks) = mset ks"
    and "sorted_wrt (\<lambda>a b. g a \<ge> g b) (sort_key (\<lambda>d. - g d) ks)"
    and "filter (\<lambda>d. g d = v) (sort_key (\<lambda>d. - g d) ks) = filter (\<lambda>d. g d = v) ks"
proof -
  show "mset (sort_key (\<lambda>d. - g d) ks) = mset ks" by simp
  have "sorted (map (\<lambda>d. - g d) (sort_key (\<lambda>d. - g d) ks))" by (rule sorted_sort_key)
  then show "sorted_wrt (\<lambda>a b. g a \<ge> g b) (sort_key (\<lambda>d. - g d) ks)" by (simp add: sorted_map)
  have "filter (\<lambda>d. - g d = - v) (sort_key (\<lambda>d. - g d) ks) = filter (\<lambda>d. - g d = - v) ks"
    by (rule sort_key_stable)
  then show "filter (\<lambda>d. g d = v) (sort_key (\<lambda>d. - g d) ks) = filter (\<lambda>d. g d = v) ks" by simp
qed

text \<open>
  C4. Over the caches built from any input, with an embedder of fixed dimension, and for every
  query id \<open>q\<close> of the caches, \<open>rank q\<close> returns a list \<open>ds\<close> (the one stored for \<open>q\<close> in the
  persisted ranking) that is a permutation of the document ids, without duplicates, holding
  exactly the ids of the input, in descending order of composite score, in which documents of
  equal score stand in the order of the document dictionary.
\<close>

theorem rank_sorted_permutation:
  assumes e: "\<forall>adapter text n. length (emb adapter text n) = dm"
    and q: "q \<in> set (keys (query_emb_title (build_caches emb data)))"
  shows "\<exists>scores ds r.
      rank_scores (build_caches emb data) q = Inr scores
    \<and> rank (build_caches emb data) q = Inr ds
    \<and> ranking (build_caches emb data) = Inr r \<and> map_of r q = Some ds
    \<and> keys scores = keys (doc_emb_title (build_caches emb data))
    \<and> mset ds = mset (keys (doc_emb_title (build_caches emb data)))
    \<and> distinct ds
    \<and> set ds = item_id ` set data
    \<and> sorted_wrt (\<lambda>a b. the (map_of scores a) \<ge> the (map_of scores b)) ds
    \<and> (\<forall>v. filter (\<lambda>d. the (map_of scores d) = v) ds
           = filter (\<lambda>d. the (map_of scores d) = v) (keys (doc_emb_title (build_caches emb data))))"
proof -
  define st where "st = build_caches emb data"
  define ks where "ks = keys (doc_emb_title st)"
  have p: "populated dm st" unfolding st_def by (rule populated_build_caches) (simp add: e)
  have q': "q \<in> set (keys (query_emb_title st))" using q by (simp add: st_def)
  from rank_scores_populated [OF p q'] obtain g where
    sc: "rank_scores st q = Inr (map (\<lambda>d. (d, g d)) ks)" unfolding ks_def by blast
  define scores where "scores = map (\<lambda>d. (d, g d)) ks"
  define ds where "ds = sort_key (\<lambda>d. - g d) ks"
  have rk: "rank st q = Inr ds"
    by (simp add: rank_def sc sorted_desc_mk ds_def)
  from ranking_populated [OF p q' rk] obtain r where
    r: "ranking st = Inr r" "map_of r q = Some ds" by blast
  have kk: "keys scores = ks" by (simp add: scores_def keys_mk)
  have dk: "distinct ks" unfolding ks_def by (rule populated_distinct_docs [OF p])
  have sds: "set ds = set ks" by (simp add: ds_def)
  have look: "\<And>d. d \<in> set ks \<Longrightarrow> the (map_of scores d) = g d"
    by (simp add: scores_def map_of_mk)
  have m: "mset ds = mset ks" unfolding ds_def by (rule sort_desc_props(1))
  have dd: "distinct ds" using dk by (simp add: ds_def)
  have "set ks = set (key_order (map item_id data) [])"
    by (simp add: ks_def st_def keys_build_caches)
  then have sk: "set ds = item_id ` set data" using sds by (simp add: set_key_order)
  have "sorted_wrt (\<lambda>a b. g a \<ge> g b) ds" unfolding ds_def by (rule sort_desc_props(2))
  then have so: "sorted_wrt (\<lambda>a b. the (map_of scores a) \<ge> the (map_of scores b)) ds"
    by (rule sorted_wrt_mono_rel [rotated]) (simp add: look sds)
  have stab: "filter (\<lambda>d. the (map_of scores d) = v) ds
           = filter (\<lambda>d. the (map_of scores d) = v) ks" for v
  proof -
    have "filter (\<lambda>d. the (map_of scores d) = v) ds = filter (\<lambda>d. g d = v) ds"
      by (rule filter_cong) (simp_all add: look sds)
    also have "\<dots> = filter (\<lambda>d. g d = v) ks" unfolding ds_def by (rule sort_desc_props(3))
    also have "\<dots> = filter (\<lambda>d. the (map_of scores d) = v) ks"
      by (rule filter_cong) (simp_all add: look)
    finally show ?thesis .
  qed
  have "rank_scores st q = Inr scores \<and> rank st q = Inr ds \<and> ranking st = Inr r
      \<and> map_of r q = Some ds \<and> keys scores = ks \<and> mset ds = mset ks \<and> distinct ds
      \<and> set ds = item_id ` set data
      \<and> sorted_wrt (\<lambda>a b. the (map_of scores a) \<ge> the (map_of scores b)) ds
      \<and> (\<forall>v. filter (\<lambda>d. the (map_of scores d) = v) ds
           = filter (\<lambda>d. the (map_of scores d) = v) ks)"
    using sc rk r kk m dd sk so stab unfolding scores_def by blast
  then show ?thesis unfolding ks_def st_def by blast
qed

theorem rank_sorted_permutation_witness:
  "(\<forall>adapter text n. length (ex_emb adapter text n) = 2)
   \<and> ''A'' \<in> set (keys (query_emb_title (build_caches ex_emb ex_data)))
   \<and> (\<exists>scores ds r.
      rank_scores (build_caches ex_emb ex_data) ''A'' = Inr scores
    \<and> rank (build_caches ex_emb ex_data) ''A'' = Inr ds
    \<and> ranking (build_caches ex_emb ex_data) = Inr r \<and> map_of r ''A'' = Some ds
    \<and> keys scores = keys (doc_emb_title (build_caches ex_emb ex_data))
    \<and> mset ds = mset (keys (doc_emb_title (build_caches ex_emb ex_data)))
    \<and> distinct ds
    \<and> set ds = item_id ` set ex_data
    \<and> sorted_wrt (\<lambda>a b. the (map_of scores a) \<ge> the (map_of scores b)) ds
    \<and> (\<forall>v. filter (\<lambda>d. the (map_of scores d) = v) ds
           = filter (\<lambda>d. the (map_of scores d) = v)
               (keys (doc_emb_title (build_caches ex_emb ex_data)))))
   \<and> rank (build_caches ex_emb ex_data) ''A'' = Inr [''B'', ''A'']"
proof -
  have h1: "\<forall>adapter text n. length (ex_emb adapter text n) = 2"
    by (simp add: ex_emb_def)
  have h2: "''A'' \<in> set (keys (query_emb_title (build_caches ex_emb ex_data)))"
    by (simp add: ex_caches_def [symmetric] ex_caches_eq keys_def)
  have h3: "rank (build_caches ex_emb ex_data) ''A'' = Inr [''B'', ''A'']"
    using ex_rank_scores_A by (simp add: ex_caches_def [symmetric] rank_def sorted_desc_def)
  from h1 h2 h3 rank_sorted_permutation [OF h1 h2] show ?thesis by blast
qed

subsection \<open>The metric over populated caches\<close>

lemma eval_ranked_populated:
  assumes p: "populated dm st" and q: "q \<in> set (keys (query_emb_title st))"
  shows "\<exists>ds. eval_ranked st w_title w_details w_feature q = Inr ds"
proof -
  from eval_scores_populated [OF p q] obtain g where
    "eval_scores st w_title w_details w_feature q
       = Inr (map (\<lambda>d. (d, g d)) (keys (doc_emb_title st)))" by blast
  then show ?thesis by (simp add: eval_ranked_def)
qed

lemma eval_loop_count:
  "(\<And>q. q \<in> set rids \<Longrightarrow> eval_ranked st w_title w_details w_feature q = Inr (rk q))
   \<Longrightarrow> eval_loop st w_title w_details w_feature rids c
       = Inr (c + length (filter (\<lambda>q. q \<in> set (take 10 (rk q))) rids))"
proof (induction rids arbitrary: c)
  case Nil
  show ?case by simp
next
  case (Cons r rids)
  have h: "eval_ranked st w_title w_details w_feature r = Inr (rk r)"
    by (rule Cons.prems) simp
  have ih: "eval_loop st w_title w_details w_feature rids c'
       = Inr (c' + length (filter (\<lambda>q. q \<in> set (take 10 (rk q))) rids))" for c'
    by (rule Cons.IH) (simp add: Cons.prems)
  show ?case by (simp add: h ih)
qed

lemma eval_metric_populated:
  assumes p: "populated dm st"
  shows "\<exists>rk. (\<forall>q \<in> set (keys (query_emb_title st)).
                 eval_ranked st w_title w_details w_feature q = Inr (rk q))
            \<and> eval_metric st [w_title, w_details, w_feature]
                = truediv (length (filter (\<lambda>q. q \<in> set (take 10 (rk q))) (keys (query_emb_title st))))
                    (length (query_emb_title st))"
proof -
  define rk where "rk = (\<lambda>q. projr (eval_ranked st w_title w_details w_feature q))"
  have a: "eval_ranked st w_title w_details w_feature q = Inr (rk q)"
    if "q \<in> set (keys (query_emb_title st))" for q
    using eval_ranked_populated [OF p that, of w_title w_details w_feature]
    by (auto simp: rk_def)
  have "eval_loop st w_title w_details w_feature (keys (query_emb_title st)) 0
       = Inr (0 + length (filter (\<lambda>q. q \<in> set (take 10 (rk q))) (keys (query_emb_title st))))"
    by (rule eval_loop_count) (rule a)
  then have "eval_metric st [w_title, w_details, w_feature]
                = truediv (length (filter (\<lambda>q. q \<in> set (take 10 (rk q))) (keys (query_emb_title st))))
                    (length (query_emb_title st))"
    by (simp add: eval_metric_def)
  with a show ?thesis by blast
qed

lemma ex_eval_metric: "eval_metric ex_caches [0.1, 0.6, 0.3] = Inr 1"
  by (simp add: eval_metric_def ex_caches_eq eval_ranked_def eval_scores_def eval_score_def
      dict_get_def keys_def dot_product_def dotr_def sorted_desc_def truediv_def)

lemma sorted_desc_props:
  assumes dk: "distinct ks"
  shows "mset (sorted_desc (map (\<lambda>d. (d, g d)) ks)) = mset ks"
    and "sorted_wrt (\<lambda>a b. the (map_of (map (\<lambda>d. (d, g d)) ks) a) \<ge> the (map_of (map (\<lambda>d. (d, g d)) ks) b))
           (sorted_desc (map (\<lambda>d. (d, g d)) ks))"
    and "filter (\<lambda>d. the (map_of (map (\<lambda>d. (d, g d)) ks) d) = v) (sorted_desc (map (\<lambda>d. (d, g d)) ks))
           = filter (\<lambda>d. the (map_of (map (\<lambda>d. (d, g d)) ks) d) = v) ks"
proof -
  define scores where "scores = map (\<lambda>d. (d, g d)) ks"
  define ds where "ds = sort_key (\<lambda>d. - g d) ks"
  have sd: "sorted_desc scores = ds" by (simp add: scores_def ds_def sorted_desc_mk)
  have sds: "set ds = set ks" by (simp add: ds_def)
  have look: "\<And>d. d \<in> set ks \<Longrightarrow> the (map_of scores d) = g d"
    by (simp add: scores_def map_of_mk)
  have m: "mset ds = mset ks" unfolding ds_def by (rule sort_desc_props(1))
  have "sorted_wrt (\<lambda>a b. g a \<ge> g b) ds" unfolding ds_def by (rule sort_desc_props(2))
  then have so: "sorted_wrt (\<lambda>a b. the (map_of scores a) \<ge> the (map_of scores b)) ds"
    by (rule sorted_wrt_mono_rel [rotated]) (simp add: look sds)
  have "filter (\<lambda>d. the (map_of scores d) = v) ds = filter (\<lambda>d. g d = v) ds"
    by (rule filter_cong) (simp_all add: look sds)
  also have "\<dots> = filter (\<lambda>d. g d = v) ks" unfolding ds_def by (rule sort_desc_props(3))
  also have "\<dots> = filter (\<lambda>d. the (map_of scores d) = v) ks"
    by (rule filter_cong) (simp_all add: look)
  finally have stab: "filter (\<lambda>d. the (map_of scores d) = v) ds
           = filter (\<lambda>d. the (map_of scores d) = v) ks" .
  show "mset (sorted_desc (map (\<lambda>d. (d, g d)) ks)) = mset ks"
    using m sd by (simp add: scores_def)
  show "sorted_wrt (\<lambda>a b. the (map_of (map (\<lambda>d. (d, g d)) ks) a) \<ge> the (map_of (map (\<lambda>d. (d, g d)) ks) b))
           (sorted_desc (map (\<lambda>d. (d, g d)) ks))"
    using so sd by (simp add: scores_def)
  show "filter (\<lambda>d. the (map_of (map (\<lambda>d. (d, g d)) ks) d) = v) (sorted_desc (map (\<lambda>d. (d, g d)) ks))
           = filter (\<lambda>d. the (map_of (map (\<lambda>d. (d, g d)) ks) d) = v) ks"
    using stab sd by (simp add: scores_def)
qed

lemma eval_ranked_descending:
  assumes p: "populated dm st" and q: "q \<in> set (keys (query_emb_title st))"
    and r: "eval_ranked st w_title w_details w_feature q = Inr ds"
  shows "\<exists>sc. eval_scores st w_title w_details w_feature q = Inr sc
      \<and> keys sc = keys (doc_emb_title st)
      \<and> mset ds = mset (keys (doc_emb_title st))
      \<and> sorted_wrt (\<lambda>a b. the (map_of sc a) \<ge> the (map_of sc b)) ds
      \<and> (\<forall>v. filter (\<lambda>d. the (map_of sc d) = v) ds
             = filter (\<lambda>d. the (map_of sc d) = v) (keys (doc_emb_title st)))"
proof -
  from eval_scores_populated [OF p q, of w_title w_details w_feature] obtain g where
    sc: "eval_scores st w_title w_details w_feature q
           = Inr (map (\<lambda>d. (d, g d)) (keys (doc_emb_title st)))" by blast
  with r have ds: "ds = sorted_desc (map (\<lambda>d. (d, g d)) (keys (doc_emb_title st)))"
    by (simp add: eval_ranked_def)
  have dk: "distinct (keys (doc_emb_title st))" by (rule populated_distinct_docs [OF p])
  show ?thesis
    unfolding ds
    using sc keys_mk [of g "keys (doc_emb_title st)"] sorted_desc_props [OF dk, of g]
    by (intro exI [where x = "map (\<lambda>d. (d, g d)) (keys (doc_emb_title st))"]) simp
qed

text \<open>
  C10. Over the caches built from a non-empty input by an embedder of fixed dimension,
  \<open>eval_metric\<close> returns \<open>correct / total\<close>, where \<open>total\<close> is the number of cached queries and
  \<open>correct\<close> counts the queries whose own id is among the first 10 entries of their ranking;
  that ranking is a permutation of the document ids in descending order of the scores the
  metric computed for the query, documents of equal score in dictionary order; the value lies
  between 0 and 1. On the empty input the unguarded division raises ZeroDivisionError.
\<close>

theorem eval_metric_fraction:
  assumes e: "\<forall>adapter text n. length (emb adapter text n) = dm"
  shows "(data \<noteq> [] \<longrightarrow>
           (\<exists>rk hits total.
               (\<forall>q \<in> set (keys (query_emb_title (build_caches emb data))).
                   eval_ranked (build_caches emb data) w_title w_details w_feature q = Inr (rk q)
                 \<and> (\<exists>sc. eval_scores (build_caches emb data) w_title w_details w_feature q = Inr sc
                      \<and> keys sc = keys (doc_emb_title (build_caches emb data))
                      \<and> mset (rk q) = mset (keys (doc_emb_title (build_caches emb data)))
                      \<and> sorted_wrt (\<lambda>a b. the (map_of sc a) \<ge> the (map_of sc b)) (rk q)
                      \<and> (\<forall>v. filter (\<lambda>d. the (map_of sc d) = v) (rk q)
                             = filter (\<lambda>d. the (map_of sc d) = v)
                                 (keys (doc_emb_title (build_caches emb data))))))
             \<and> total = length (query_emb_title (build_caches emb data))
             \<and> hits = length (filter (\<lambda>q. q \<in> set (take 10 (rk q)))
                                (keys (query_emb_title (build_caches emb data))))
             \<and> 0 < total \<and> hits \<le> total
             \<and> eval_metric (build_caches emb data) [w_title, w_details, w_feature]
                 = Inr (real hits / real total)
             \<and> 0 \<le> real hits / real total \<and> real hits / real total \<le> 1))
       \<and> (data = [] \<longrightarrow>
             eval_metric (build_caches emb data) [w_title, w_details, w_feature]
               = Inl ZeroDivisionError)"
proof (intro conjI impI)
  assume ne: "data \<noteq> []"
  define st where "st = build_caches emb data"
  have p: "populated dm st" unfolding st_def by (rule populated_build_caches) (simp add: e)
  from eval_metric_populated [OF p, of w_title w_details w_feature] obtain rk where
    rk: "\<forall>q \<in> set (keys (query_emb_title st)).
                 eval_ranked st w_title w_details w_feature q = Inr (rk q)"
    and em: "eval_metric st [w_title, w_details, w_feature]
                = truediv (length (filter (\<lambda>q. q \<in> set (take 10 (rk q))) (keys (query_emb_title st))))
                    (length (query_emb_title st))" by blast
  have desc: "\<forall>q \<in> set (keys (query_emb_title st)).
                   eval_ranked st w_title w_details w_feature q = Inr (rk q)
                 \<and> (\<exists>sc. eval_scores st w_title w_details w_feature q = Inr sc
                      \<and> keys sc = keys (doc_emb_title st)
                      \<and> mset (rk q) = mset (keys (doc_emb_title st))
                      \<and> sorted_wrt (\<lambda>a b. the (map_of sc a) \<ge> the (map_of sc b)) (rk q)
                      \<and> (\<forall>v. filter (\<lambda>d. the (map_of sc d) = v) (rk q)
                             = filter (\<lambda>d. the (map_of sc d) = v) (keys (doc_emb_title st))))"
  proof
    fix q assume q: "q \<in> set (keys (query_emb_title st))"
    with rk have r: "eval_ranked st w_title w_details w_feature q = Inr (rk q)" by blast
    from eval_ranked_descending [OF p q r] r
    show "eval_ranked st w_title w_details w_feature q = Inr (rk q)
                 \<and> (\<exists>sc. eval_scores st w_title w_details w_feature q = Inr sc
                      \<and> keys sc = keys (doc_emb_title st)
                      \<and> mset (rk q) = mset (keys (doc_emb_title st))
                      \<and> sorted_wrt (\<lambda>a b. the (map_of sc a) \<ge> the (map_of sc b)) (rk q)
                      \<and> (\<forall>v. filter (\<lambda>d. the (map_of sc d) = v) (rk q)
                             = filter (\<lambda>d. the (map_of sc d) = v) (keys (doc_emb_title st))))"
      by (rule conjI [rotated])
  qed
  define total where "total = length (query_emb_title st)"
  define hits where "hits = length (filter (\<lambda>q. q \<in> set (take 10 (rk q))) (keys (query_emb_title st)))"
  have "set (keys (query_emb_title st)) = item_id ` set data"
    by (simp add: st_def keys_build_caches set_key_order)
  with ne have "keys (query_emb_title st) \<noteq> []" by auto
  then have pos: "0 < total" by (simp add: total_def keys_def)
  have "hits \<le> length (keys (query_emb_title st))" unfolding hits_def by (rule length_filter_le)
  then have le: "hits \<le> total" by (simp add: total_def keys_def)
  have val: "eval_metric st [w_title, w_details, w_feature] = Inr (real hits / real total)"
    using em pos by (simp add: truediv_def hits_def total_def)
  have b0: "0 \<le> real hits / real total" by simp
  have b1: "real hits / real total \<le> 1" using pos le by simp
  have "(\<forall>q \<in> set (keys (query_emb_title st)).
                   eval_ranked st w_title w_details w_feature q = Inr (rk q)
                 \<and> (\<exists>sc. eval_scores st w_title w_details w_feature q = Inr sc
                      \<and> keys sc = keys (doc_emb_title st)
                      \<and> mset (rk q) = mset (keys (doc_emb_title st))
                      \<and> sorted_wrt (\<lambda>a b. the (map_of sc a) \<ge> the (map_of sc b)) (rk q)
                      \<and> (\<forall>v. filter (\<lambda>d. the (map_of sc d) = v) (rk q)
                             = filter (\<lambda>d. the (map_of sc d) = v) (keys (doc_emb_title st)))))
             \<and> total = length (query_emb_title st)
             \<and> hits = length (filter (\<lambda>q. q \<in> set (take 10 (rk q))) (keys (query_emb_title st)))
             \<and> 0 < total \<and> hits \<le> total
             \<and> eval_metric st [w_title, w_details, w_feature] = Inr (real hits / real total)
             \<and> 0 \<le> real hits / real total \<and> real hits / real total \<le> 1"
    using desc pos le val b0 b1 total_def hits_def by (intro conjI)
  then show "\<exists>rk hits total.
               (\<forall>q \<in> set (keys (query_emb_title (build_caches emb data))).
                   eval_ranked (build_caches emb data) w_title w_details w_feature q = Inr (rk q)
                 \<and> (\<exists>sc. eval_scores (build_caches emb data) w_title w_details w_feature q = Inr sc
                      \<and> keys sc = keys (doc_emb_title (build_caches emb data))
                      \<and> mset (rk q) = mset (keys (doc_emb_title (build_caches emb data)))
                      \<and> sorted_wrt (\<lambda>a b. the (map_of sc a) \<ge> the (map_of sc b)) (rk q)
                      \<and> (\<forall>v. filter (\<lambda>d. the (map_of sc d) = v) (rk q)
                             = filter (\<lambda>d. the (map_of sc d) = v)
                                 (keys (doc_emb_title (build_caches emb data))))))
             \<and> total = length (query_emb_title (build_caches emb data))
             \<and> hits = length (filter (\<lambda>q. q \<in> set (take 10 (rk q)))
                                (keys (query_emb_title (build_caches emb data))))
             \<and> 0 < total \<and> hits \<le> total
             \<and> eval_metric (build_caches emb data) [w_title, w_details, w_feature]
                 = Inr (real hits / real total)
             \<and> 0 \<le> real hits / real total \<and> real hits / real total \<le> 1"
    unfolding st_def by (intro exI)
next
  assume "data = []"
  then show "eval_metric (build_caches emb data) [w_title, w_details, w_feature]
               = Inl ZeroDivisionError"
    by (simp add: eval_metric_def build_caches_def empty_caches_def keys_def truediv_def)
qed

theorem eval_metric_fraction_witness:
  "(\<forall>adapter text n. length (ex_emb adapter text n) = 2)
   \<and> ex_data \<noteq> []
   \<and> eval_metric (build_caches ex_emb ex_data) [0.1, 0.6, 0.3] = Inr 1
   \<and> eval_scores (build_caches ex_emb ex_data) 0.1 0.9 0 ''A'' = Inr [(''A'', 244 / 5), (''B'', 54)]
   \<and> eval_ranked (build_caches ex_emb ex_data) 0.1 0.9 0 ''A'' = Inr [''B'', ''A'']
   \<and> eval_metric (build_caches ex_emb []) [0.1, 0.6, 0.3] = Inl ZeroDivisionError"
proof -
  have h1: "\<forall>adapter text n. length (ex_emb adapter text n) = 2"
    by (simp add: ex_emb_def)
  have h2: "ex_data \<noteq> []" by (simp add: ex_data_def)
  have h3: "eval_metric (build_caches ex_emb ex_data) [0.1, 0.6, 0.3] = Inr 1"
    using ex_eval_metric by (simp add: ex_caches_def)
  have h5: "eval_scores (build_caches ex_emb ex_data) 0.1 0.9 0 ''A''
      = Inr [(''A'', 244 / 5), (''B'', 54)]"
    unfolding ex_caches_def [symmetric]
    by (simp add: ex_caches_eq eval_scores_def eval_score_def dict_get_def keys_def
        dot_product_def dotr_def)
  have h6: "eval_ranked (build_caches ex_emb ex_data) 0.1 0.9 0 ''A'' = Inr [''B'', ''A'']"
    unfolding eval_ranked_def h5 by (simp add: sorted_desc_def)
  from eval_metric_fraction [OF h1, of "[]" "0.1" "0.6" "0.3"]
  have h4: "eval_metric (build_caches ex_emb []) [0.1, 0.6, 0.3] = Inl ZeroDivisionError"
    by simp
  from h1 h2 h3 h4 h5 h6 show ?thesis by blast
qed

subsection \<open>Invariants of the hill-climbing loops\<close>

lemma upt_3: "[0..<3] = [0, Suc 0, Suc (Suc 0)]"
  by (simp add: upt_rec)

lemma delta_loop_invariant:
  assumes step: "\<And>d s s'. P s \<Longrightarrow> try_candidate ev i d s = Inr s' \<Longrightarrow> P s'"
  shows "P s \<Longrightarrow> delta_loop ev i ds s = Inr s' \<Longrightarrow> P s'"
proof (induction ds arbitrary: s)
  case Nil
  then show ?case by simp
next
  case (Cons d ds)
  from Cons.prems(2) obtain s1 where a: "try_candidate ev i d s = Inr s1"
    and b: "delta_loop ev i ds s1 = Inr s'"
    by (auto simp: ebind_Inr_iff)
  from step [OF Cons.prems(1) a] have "P s1" .
  from Cons.IH [OF this b] show ?case .
qed

lemma coord_loop_invariant:
  assumes step: "\<And>i d s s'. P s \<Longrightarrow> i \<in> set cs \<Longrightarrow> try_candidate ev i d s = Inr s' \<Longrightarrow> P s'"
  shows "P s \<Longrightarrow> coord_loop ev cs s = Inr s' \<Longrightarrow> P s'"
  using step
proof (induction cs arbitrary: s)
  case Nil
  then show ?case by simp
next
  case (Cons i cs)
  from Cons.prems(2) obtain s1 where a: "delta_loop ev i [step_size, - step_size] s = Inr s1"
    and b: "coord_loop ev cs s1 = Inr s'"
    by (auto simp: ebind_Inr_iff)
  have st: "\<And>d s s'. P s \<Longrightarrow> try_candidate ev i d s = Inr s' \<Longrightarrow> P s'"
    by (rule Cons.prems(3)) simp_all
  have p1: "P s1"
    by (rule delta_loop_invariant [where P = P, OF st Cons.prems(1) a])
  have st2: "\<And>j d s s'. P s \<Longrightarrow> j \<in> set cs \<Longrightarrow> try_candidate ev j d s = Inr s' \<Longrightarrow> P s'"
    by (rule Cons.prems(3)) simp_all
  show ?case by (rule Cons.IH [OF p1 b st2])
qed

lemma hill_pass_invariant:
  assumes step: "\<And>i d s s'. P s \<Longrightarrow> i < 3 \<Longrightarrow> try_candidate ev i d s = Inr s' \<Longrightarrow> P s'"
    and book: "\<And>s b n. P s \<Longrightarrow> P (s\<lparr>improved := b, iteration := n\<rparr>)"
  shows "P s \<Longrightarrow> hill_pass ev s = Inr s' \<Longrightarrow> P s'"
proof -
  assume p: "P s" and h: "hill_pass ev s = Inr s'"
  have st: "\<And>i d s s'. P s \<Longrightarrow> i \<in> set [0..<3] \<Longrightarrow> try_candidate ev i d s = Inr s' \<Longrightarrow> P s'"
    by (rule step) simp_all
  have p0: "P (s\<lparr>improved := False, iteration := iteration s + 1\<rparr>)"
    by (rule book [OF p])
  from h have c: "coord_loop ev [0..<3] (s\<lparr>improved := False, iteration := iteration s + 1\<rparr>) = Inr s'"
    by (simp add: hill_pass_def)
  show "P s'" by (rule coord_loop_invariant [where P = P, OF st p0 c])
qed

lemma hill_loop_invariant:
  assumes step: "\<And>i d s s'. P s \<Longrightarrow> i < 3 \<Longrightarrow> try_candidate ev i d s = Inr s' \<Longrightarrow> P s'"
    and book: "\<And>s b n. P s \<Longrightarrow> P (s\<lparr>improved := b, iteration := n\<rparr>)"
    and noimp: "\<And>s n. P s \<Longrightarrow> P (s\<lparr>stdout := stdout s @ [NoImprovement n]\<rparr>)"
  shows "P s \<Longrightarrow> hill_loop ev s = Inr s' \<Longrightarrow> P s'"
  using step
proof (induction ev s rule: hill_loop.induct)
  case (1 ev s)
  note p = "1.prems"(1) and run = "1.prems"(2) and st = "1.prems"(3)
  show ?case
  proof (cases "improved s \<and> iteration s < max_iters")
    case False
    with p run show ?thesis by (subst (asm) hill_loop.simps) simp
  next
    case True
    with run obtain s1 where a: "hill_pass ev s = Inr s1"
      and b: "(if \<not> improved s1 then Inr (s1\<lparr>stdout := stdout s1 @ [NoImprovement (iteration s1)]\<rparr>)
               else hill_loop ev s1) = Inr s'"
      by (subst (asm) hill_loop.simps) (auto simp: ebind_Inr_iff)
    have p1: "P s1"
    proof (rule hill_pass_invariant [where P = P, OF _ _ p a])
      show "\<And>i d s s'. P s \<Longrightarrow> i < 3 \<Longrightarrow> try_candidate ev i d s = Inr s' \<Longrightarrow> P s'"
        by (rule st)
      show "\<And>s b n. P s \<Longrightarrow> P (s\<lparr>improved := b, iteration := n\<rparr>)"
        by (rule book)
    qed
    show ?thesis
    proof (cases "improved s1")
      case False
      with b have "s' = s1\<lparr>stdout := stdout s1 @ [NoImprovement (iteration s1)]\<rparr>" by simp
      with noimp [OF p1] show ?thesis by simp
    next
      case i: True
      with b have r: "hill_loop ev s1 = Inr s'" by simp
      have ni: "\<not> \<not> improved s1" using i by simp
      show ?thesis by (rule "1.IH" [OF True a ni p1 r st])
    qed
  qed
qed

lemma weights_trace_append [simp]: "weights_trace (xs @ ys) = weights_trace xs @ weights_trace ys"
  by (simp add: weights_trace_def)

lemma metric_trace_append [simp]: "metric_trace (xs @ ys) = metric_trace xs @ metric_trace ys"
  by (simp add: metric_trace_def)

lemma try_candidate_cases:
  assumes "try_candidate ev i d s = Inr s'"
  shows "s' = s \<or>
    (\<exists>m. i < length (current_weights s)
        \<and> 0 \<le> current_weights s ! i + d
        \<and> ev ((current_weights s)[i := current_weights s ! i + d]) = Inr m
        \<and> current_metric s < m
        \<and> s' = s\<lparr>current_metric := m,
                  current_weights := (current_weights s)[i := current_weights s ! i + d],
                  improved := True,
                  stdout := stdout s @ [Improved (iteration s)
                     ((current_weights s)[i := current_weights s ! i + d]) m]\<rparr>)"
  using assms
  by (auto simp: try_candidate_def Let_def ebind_Inr_iff not_less split: if_splits)

lemma nonneg_update:
  assumes "\<forall>w \<in> set ws. (0::real) \<le> w" and "0 \<le> x"
  shows "\<forall>w \<in> set (ws[i := x]). 0 \<le> w"
  using assms set_update_subset_insert [of ws i x] by blast

lemma nonneg_try_candidate:
  assumes n: "nonneg_state s" and t: "try_candidate ev i d s = Inr s'"
  shows "nonneg_state s'"
proof -
  from try_candidate_cases [OF t] show ?thesis
  proof
    assume "s' = s" with n show ?thesis by simp
  next
    assume "\<exists>m. i < length (current_weights s)
        \<and> 0 \<le> current_weights s ! i + d
        \<and> ev ((current_weights s)[i := current_weights s ! i + d]) = Inr m
        \<and> current_metric s < m
        \<and> s' = s\<lparr>current_metric := m,
                  current_weights := (current_weights s)[i := current_weights s ! i + d],
                  improved := True,
                  stdout := stdout s @ [Improved (iteration s)
                     ((current_weights s)[i := current_weights s ! i + d]) m]\<rparr>"
    then obtain m where pos: "0 \<le> current_weights s ! i + d"
      and s': "s' = s\<lparr>current_metric := m,
                  current_weights := (current_weights s)[i := current_weights s ! i + d],
                  improved := True,
                  stdout := stdout s @ [Improved (iteration s)
                     ((current_weights s)[i := current_weights s ! i + d]) m]\<rparr>" by blast
    from n have a: "length (current_weights s) = 3" "\<forall>w \<in> set (current_weights s). 0 \<le> w"
      and b: "\<forall>ws \<in> set (weights_trace (stdout s)). length ws = 3 \<and> (\<forall>w \<in> set ws. 0 \<le> w)"
      by (simp_all add: nonneg_state_def)
    have c: "\<forall>w \<in> set ((current_weights s)[i := current_weights s ! i + d]). 0 \<le> w"
      by (rule nonneg_update [OF a(2) pos])
    show ?thesis unfolding nonneg_state_def s' using a b c
      by (simp add: weights_trace_def)
  qed
qed

lemma nonneg_hill_loop:
  assumes "nonneg_state s" and "hill_loop ev s = Inr s'"
  shows "nonneg_state s'"
proof (rule hill_loop_invariant [where P = nonneg_state, OF _ _ _ assms])
  show "\<And>i d s s'. nonneg_state s \<Longrightarrow> i < 3 \<Longrightarrow> try_candidate ev i d s = Inr s' \<Longrightarrow> nonneg_state s'"
    by (rule nonneg_try_candidate)
  show "\<And>s b n. nonneg_state s \<Longrightarrow> nonneg_state (s\<lparr>improved := b, iteration := n\<rparr>)"
    by (simp add: nonneg_state_def)
  show "\<And>s n. nonneg_state s \<Longrightarrow> nonneg_state (s\<lparr>stdout := stdout s @ [NoImprovement n]\<rparr>)"
    by (simp add: nonneg_state_def weights_trace_def)
qed

lemma hill_climbing_Inr:
  assumes "hill_climbing ev = Inr sf"
  shows "\<exists>m s. ev [0.1, 0.6, 0.3] = Inr m
     \<and> hill_loop ev \<lparr>current_weights = [0.1, 0.6, 0.3], current_metric = m, improved = True,
            iteration = 0, stdout = [Initial [0.1, 0.6, 0.3] m]\<rparr> = Inr s
     \<and> sf = s\<lparr>stdout := stdout s @ [BestWeights (current_weights s), Top10Accuracy (current_metric s)]\<rparr>"
  using assms by (auto simp: hill_climbing_def hill_init_def ebind_Inr_iff)

lemma ex_ev_simps [simp]: "ex_ev [a, b, c] = Inr (if 0.15 \<le> a then 1 else 0)"
  by (simp add: ex_ev_def)

lemma ex_hill_climbing:
  "hill_climbing ex_ev =
     Inr \<lparr>current_weights = [0.15, 0.6, 0.3], current_metric = 1, improved = False, iteration = 2,
          stdout = [Initial [0.1, 0.6, 0.3] 0, Improved 1 [0.15, 0.6, 0.3] 1, NoImprovement 2,
                    BestWeights [0.15, 0.6, 0.3], Top10Accuracy 1]\<rparr>"
  by (simp add: hill_climbing_def hill_init_def hill_loop.simps hill_pass_def upt_3 try_candidate_def
      step_size_def max_iters_def Let_def)

text \<open>
  C7. In every completed run the final weight vector and every weight vector printed on the
  way (the initial one and every accepted candidate) have three components, all of them
  non-negative; a candidate whose perturbed coordinate is negative leaves the state as it is
  whatever the metric would do on it (it is not evaluated), and an accepted candidate of a
  non-negative vector is non-negative.
\<close>

theorem weights_nonnegative:
  "(hill_climbing ev = Inr sf \<longrightarrow>
      length (current_weights sf) = 3 \<and> (\<forall>w \<in> set (current_weights sf). 0 \<le> w)
      \<and> (\<forall>ws \<in> set (weights_trace (stdout sf)). length ws = 3 \<and> (\<forall>w \<in> set ws. 0 \<le> w)))
   \<and> (i < length (current_weights s) \<and> current_weights s ! i + delta < 0 \<longrightarrow>
        try_candidate ev i delta s = Inr s)
   \<and> ((\<forall>w \<in> set (current_weights s). 0 \<le> w) \<and> try_candidate ev i delta s = Inr s' \<longrightarrow>
        (\<forall>w \<in> set (current_weights s'). 0 \<le> w))"
proof (intro conjI impI)
  assume h: "hill_climbing ev = Inr sf"
  from hill_climbing_Inr [OF h] obtain m s1 where
    run: "hill_loop ev \<lparr>current_weights = [0.1, 0.6, 0.3], current_metric = m, improved = True,
            iteration = 0, stdout = [Initial [0.1, 0.6, 0.3] m]\<rparr> = Inr s1"
    and sf: "sf = s1\<lparr>stdout := stdout s1 @ [BestWeights (current_weights s1), Top10Accuracy (current_metric s1)]\<rparr>"
    by blast
  have "nonneg_state \<lparr>current_weights = [0.1, 0.6, 0.3], current_metric = m, improved = True,
            iteration = 0, stdout = [Initial [0.1, 0.6, 0.3] m]\<rparr>"
    by (simp add: nonneg_state_def weights_trace_def)
  from nonneg_hill_loop [OF this run] have n: "nonneg_state s1" .
  then have "nonneg_state sf" unfolding sf by (simp add: nonneg_state_def weights_trace_def)
  then show "length (current_weights sf) = 3" and "\<forall>w \<in> set (current_weights sf). 0 \<le> w"
    and "\<forall>ws \<in> set (weights_trace (stdout sf)). length ws = 3 \<and> (\<forall>w \<in> set ws. 0 \<le> w)"
    by (simp_all add: nonneg_state_def)
next
  assume "i < length (current_weights s) \<and> current_weights s ! i + delta < 0"
  then show "try_candidate ev i delta s = Inr s"
    by (simp add: try_candidate_def Let_def)
next
  assume a: "(\<forall>w \<in> set (current_weights s). 0 \<le> w) \<and> try_candidate ev i delta s = Inr s'"
  from try_candidate_cases [of ev i delta s s'] a
  show "\<forall>w \<in> set (current_weights s'). 0 \<le> w"
    by (auto intro: nonneg_update [rule_format])
qed

theorem weights_nonnegative_witness:
  "hill_climbing ex_ev =
     Inr \<lparr>current_weights = [0.15, 0.6, 0.3], current_metric = 1, improved = False, iteration = 2,
          stdout = [Initial [0.1, 0.6, 0.3] 0, Improved 1 [0.15, 0.6, 0.3] 1, NoImprovement 2,
                    BestWeights [0.15, 0.6, 0.3], Top10Accuracy 1]\<rparr>
   \<and> weights_trace [Initial [0.1, 0.6, 0.3] 0, Improved 1 [0.15, 0.6, 0.3] 1, NoImprovement 2,
                    BestWeights [0.15, 0.6, 0.3], Top10Accuracy 1]
       = [[0.1, 0.6, 0.3], [0.15, 0.6, 0.3], [0.15, 0.6, 0.3]]
   \<and> [0.1, 0.6, 0.3 :: real] ! 0 + (- 0.2) < 0
   \<and> try_candidate ex_ev 0 (- 0.2)
         \<lparr>current_weights = [0.1, 0.6, 0.3], current_metric = 0, improved = True, iteration = 0,
          stdout = []\<rparr>
       = Inr \<lparr>current_weights = [0.1, 0.6, 0.3], current_metric = 0, improved = True,
              iteration = 0, stdout = []\<rparr>"
  using weights_nonnegative [of ex_ev
      "\<lparr>current_weights = [0.15, 0.6, 0.3], current_metric = 1, improved = False, iteration = 2,
          stdout = [Initial [0.1, 0.6, 0.3] 0, Improved 1 [0.15, 0.6, 0.3] 1, NoImprovement 2,
                    BestWeights [0.15, 0.6, 0.3], Top10Accuracy 1]\<rparr>"
      0 "\<lparr>current_weights = [0.1, 0.6, 0.3], current_metric = 0, improved = True, iteration = 0,
          stdout = []\<rparr>" "- 0.2"]
    ex_hill_climbing
  by (simp add: weights_trace_def)

lemma strict_sorted_below:
  fixes xs :: "real list"
  shows "sorted_wrt (<) xs \<Longrightarrow> xs \<noteq> [] \<Longrightarrow> last xs < m \<Longrightarrow> \<forall>x \<in> set xs. x < m"
proof (induction xs)
  case Nil
  then show ?case by simp
next
  case (Cons x xs)
  show ?case
  proof (cases "xs = []")
    case True
    with Cons.prems show ?thesis by simp
  next
    case False
    with Cons.prems have a: "\<forall>y \<in> set xs. y < m" by (intro Cons.IH) simp_all
    from False obtain y where y: "y \<in> set xs" by (cases xs) auto
    with Cons.prems(1) have "x < y" by simp
    with a y have "x < m" by fastforce
    with a show ?thesis by simp
  qed
qed

lemma strict_sorted_snoc:
  fixes xs :: "real list"
  assumes "sorted_wrt (<) xs" and "xs \<noteq> []" and "last xs < m"
  shows "sorted_wrt (<) (xs @ [m])"
  using assms strict_sorted_below [OF assms] by (simp add: sorted_wrt_append)

lemma trace_ok_try_candidate:
  assumes n: "trace_ok s" and t: "try_candidate ev i d s = Inr s'"
  shows "trace_ok s'"
proof -
  from try_candidate_cases [OF t] show ?thesis
  proof
    assume "s' = s" with n show ?thesis by simp
  next
    assume "\<exists>m. i < length (current_weights s)
        \<and> 0 \<le> current_weights s ! i + d
        \<and> ev ((current_weights s)[i := current_weights s ! i + d]) = Inr m
        \<and> current_metric s < m
        \<and> s' = s\<lparr>current_metric := m,
                  current_weights := (current_weights s)[i := current_weights s ! i + d],
                  improved := True,
                  stdout := stdout s @ [Improved (iteration s)
                     ((current_weights s)[i := current_weights s ! i + d]) m]\<rparr>"
    then obtain m where gt: "current_metric s < m"
      and s': "s' = s\<lparr>current_metric := m,
                  current_weights := (current_weights s)[i := current_weights s ! i + d],
                  improved := True,
                  stdout := stdout s @ [Improved (iteration s)
                     ((current_weights s)[i := current_weights s ! i + d]) m]\<rparr>" by blast
    from n have a: "metric_trace (stdout s) \<noteq> []" "sorted_wrt (<) (metric_trace (stdout s))"
      "last (metric_trace (stdout s)) = current_metric s"
      by (simp_all add: trace_ok_def)
    have "sorted_wrt (<) (metric_trace (stdout s) @ [m])"
      by (rule strict_sorted_snoc [OF a(2) a(1)]) (simp add: a(3) gt)
    then show ?thesis unfolding trace_ok_def s'
      by (simp add: metric_trace_def)
  qed
qed

lemma trace_ok_hill_loop:
  assumes "trace_ok s" and "hill_loop ev s = Inr s'"
  shows "trace_ok s'"
proof (rule hill_loop_invariant [where P = trace_ok, OF _ _ _ assms])
  show "\<And>i d s s'. trace_ok s \<Longrightarrow> i < 3 \<Longrightarrow> try_candidate ev i d s = Inr s' \<Longrightarrow> trace_ok s'"
    by (rule trace_ok_try_candidate)
  show "\<And>s b n. trace_ok s \<Longrightarrow> trace_ok (s\<lparr>improved := b, iteration := n\<rparr>)"
    by (simp add: trace_ok_def)
  show "\<And>s n. trace_ok s \<Longrightarrow> trace_ok (s\<lparr>stdout := stdout s @ [NoImprovement n]\<rparr>)"
    by (simp add: trace_ok_def metric_trace_def)
qed

lemma metric_le_try_candidate:
  "try_candidate ev i d s = Inr s' \<Longrightarrow> current_metric s \<le> current_metric s'"
  by (drule try_candidate_cases) auto

lemma metric_le_hill_pass:
  assumes "hill_pass ev s = Inr s'"
  shows "current_metric s \<le> current_metric s'"
proof (rule hill_pass_invariant [where P = "\<lambda>x. current_metric s \<le> current_metric x", OF _ _ _ assms])
  show "\<And>i d t t'. current_metric s \<le> current_metric t \<Longrightarrow> i < 3
      \<Longrightarrow> try_candidate ev i d t = Inr t' \<Longrightarrow> current_metric s \<le> current_metric t'"
    by (drule metric_le_try_candidate) simp
  show "\<And>t b n. current_metric s \<le> current_metric t
      \<Longrightarrow> current_metric s \<le> current_metric (t\<lparr>improved := b, iteration := n\<rparr>)"
    by simp
  show "current_metric s \<le> current_metric s" by simp
qed

lemma metric_le_hill_loop:
  assumes "hill_loop ev s = Inr s'"
  shows "current_metric s \<le> current_metric s'"
proof (rule hill_loop_invariant [where P = "\<lambda>x. current_metric s \<le> current_metric x", OF _ _ _ _ assms])
  show "\<And>i d t t'. current_metric s \<le> current_metric t \<Longrightarrow> i < 3
      \<Longrightarrow> try_candidate ev i d t = Inr t' \<Longrightarrow> current_metric s \<le> current_metric t'"
    by (drule metric_le_try_candidate) simp
  show "\<And>t b n. current_metric s \<le> current_metric t
      \<Longrightarrow> current_metric s \<le> current_metric (t\<lparr>improved := b, iteration := n\<rparr>)"
    by simp
  show "\<And>t n. current_metric s \<le> current_metric t
      \<Longrightarrow> current_metric s \<le> current_metric (t\<lparr>stdout := stdout t @ [NoImprovement n]\<rparr>)"
    by simp
  show "current_metric s \<le> current_metric s" by simp
qed

text \<open>
  C5. \<open>current_metric\<close> never decreases: not over one candidate evaluation, not over one
  iteration, not over the whole loop; and in every completed run the metrics printed (the
  initial one and the one of every accepted candidate, that is every value the variable has
  held) are strictly increasing and end with the final \<open>current_metric\<close>.
\<close>

theorem current_metric_monotone:
  "(try_candidate ev i delta s = Inr s' \<longrightarrow> current_metric s \<le> current_metric s')
   \<and> (hill_pass ev p = Inr p' \<longrightarrow> current_metric p \<le> current_metric p')
   \<and> (hill_loop ev l = Inr l' \<longrightarrow> current_metric l \<le> current_metric l')
   \<and> (hill_climbing ev = Inr sf \<longrightarrow>
         metric_trace (stdout sf) \<noteq> [] \<and> sorted_wrt (<) (metric_trace (stdout sf))
       \<and> sorted (metric_trace (stdout sf))
       \<and> last (metric_trace (stdout sf)) = current_metric sf)"
proof (intro conjI impI)
  assume "try_candidate ev i delta s = Inr s'"
  then show "current_metric s \<le> current_metric s'" by (rule metric_le_try_candidate)
next
  assume "hill_pass ev p = Inr p'"
  then show "current_metric p \<le> current_metric p'" by (rule metric_le_hill_pass)
next
  assume "hill_loop ev l = Inr l'"
  then show "current_metric l \<le> current_metric l'" by (rule metric_le_hill_loop)
next
  assume h: "hill_climbing ev = Inr sf"
  from hill_climbing_Inr [OF h] obtain m s1 where
    run: "hill_loop ev \<lparr>current_weights = [0.1, 0.6, 0.3], current_metric = m, improved = True,
            iteration = 0, stdout = [Initial [0.1, 0.6, 0.3] m]\<rparr> = Inr s1"
    and sf: "sf = s1\<lparr>stdout := stdout s1 @ [BestWeights (current_weights s1), Top10Accuracy (current_metric s1)]\<rparr>"
    by blast
  have "trace_ok \<lparr>current_weights = [0.1, 0.6, 0.3], current_metric = m, improved = True,
            iteration = 0, stdout = [Initial [0.1, 0.6, 0.3] m]\<rparr>"
    by (simp add: trace_ok_def metric_trace_def)
  from trace_ok_hill_loop [OF this run] have "trace_ok s1" .
  then have t: "trace_ok sf" unfolding sf by (simp add: trace_ok_def metric_trace_def)
  then show "metric_trace (stdout sf) \<noteq> []" and "sorted_wrt (<) (metric_trace (stdout sf))"
    and "last (metric_trace (stdout sf)) = current_metric sf"
    by (simp_all add: trace_ok_def)
  from t have "sorted_wrt (<) (metric_trace (stdout sf))" by (simp add: trace_ok_def)
  then show "sorted (metric_trace (stdout sf))" by (rule strict_sorted_imp_sorted)
qed

theorem current_metric_monotone_witness:
  "hill_climbing ex_ev =
     Inr \<lparr>current_weights = [0.15, 0.6, 0.3], current_metric = 1, improved = False, iteration = 2,
          stdout = [Initial [0.1, 0.6, 0.3] 0, Improved 1 [0.15, 0.6, 0.3] 1, NoImprovement 2,
                    BestWeights [0.15, 0.6, 0.3], Top10Accuracy 1]\<rparr>
   \<and> metric_trace [Initial [0.1, 0.6, 0.3] 0, Improved 1 [0.15, 0.6, 0.3] 1, NoImprovement 2,
                    BestWeights [0.15, 0.6, 0.3], Top10Accuracy 1] = [0, 1]
   \<and> sorted_wrt (<) [0, 1 :: real]
   \<and> try_candidate ex_ev 0 0.05
         \<lparr>current_weights = [0.1, 0.6, 0.3], current_metric = 0, improved = False, iteration = 1,
          stdout = []\<rparr>
       = Inr \<lparr>current_weights = [0.15, 0.6, 0.3], current_metric = 1, improved = True,
              iteration = 1, stdout = [Improved 1 [0.15, 0.6, 0.3] 1]\<rparr>
   \<and> (0 :: real) \<le> 1"
  using current_metric_monotone [of ex_ev 0 "0.05"
      "\<lparr>current_weights = [0.1, 0.6, 0.3], current_metric = 0, improved = False, iteration = 1,
          stdout = []\<rparr>"
      "\<lparr>current_weights = [0.15, 0.6, 0.3], current_metric = 1, improved = True,
              iteration = 1, stdout = [Improved 1 [0.15, 0.6, 0.3] 1]\<rparr>" _ _ _ _
      "\<lparr>current_weights = [0.15, 0.6, 0.3], current_metric = 1, improved = False, iteration = 2,
          stdout = [Initial [0.1, 0.6, 0.3] 0, Improved 1 [0.15, 0.6, 0.3] 1, NoImprovement 2,
                    BestWeights [0.15, 0.6, 0.3], Top10Accuracy 1]\<rparr>"]
    ex_hill_climbing
  by (simp add: metric_trace_def try_candidate_def Let_def)

subsection \<open>Termination of the hill-climbing loop\<close>

lemma hill_loop_unfold:
  "hill_loop ev s = Inr s' \<longleftrightarrow>
     (if improved s \<and> iteration s < max_iters then
        (\<exists>s1. hill_pass ev s = Inr s1 \<and>
           (if \<not> improved s1 then s' = s1\<lparr>stdout := stdout s1 @ [NoImprovement (iteration s1)]\<rparr>
            else hill_loop ev s1 = Inr s'))
      else s' = s)"
  by (subst hill_loop.simps) (auto simp: ebind_Inr_iff)

lemma hill_loop_exit:
  "hill_loop ev s = Inr s' \<Longrightarrow>
     \<not> (improved s' \<and> iteration s' < max_iters) \<and> iteration s \<le> iteration s'
     \<and> (iteration s \<le> max_iters \<longrightarrow> iteration s' \<le> max_iters)"
proof (induction ev s rule: hill_loop.induct)
  case (1 ev s)
  show ?case
  proof (cases "improved s \<and> iteration s < max_iters")
    case False
    with "1.prems" have "s' = s" by (simp add: hill_loop_unfold)
    with False show ?thesis by simp
  next
    case True
    with "1.prems" obtain s1 where a: "hill_pass ev s = Inr s1"
      and b: "if \<not> improved s1 then s' = s1\<lparr>stdout := stdout s1 @ [NoImprovement (iteration s1)]\<rparr>
            else hill_loop ev s1 = Inr s'"
      by (auto simp: hill_loop_unfold [of ev s])
    from hill_pass_iteration [OF a] have it: "iteration s1 = iteration s + 1" .
    show ?thesis
    proof (cases "improved s1")
      case False
      with b have "s' = s1\<lparr>stdout := stdout s1 @ [NoImprovement (iteration s1)]\<rparr>" by simp
      with False it True show ?thesis by simp
    next
      case i: True
      with b have r: "hill_loop ev s1 = Inr s'" by simp
      have ni: "\<not> \<not> improved s1" using i by simp
      from "1.IH" [OF True a ni r] it True show ?thesis by simp
    qed
  qed
qed

lemma try_candidate_same_or_improved:
  "try_candidate ev i d s = Inr s' \<Longrightarrow> s' = s \<or> improved s'"
  by (drule try_candidate_cases) auto

lemma delta_loop_same_or_improved:
  "delta_loop ev i ds s = Inr s' \<Longrightarrow> s' = s \<or> improved s'"
proof (induction ds arbitrary: s)
  case Nil
  then show ?case by simp
next
  case (Cons d ds)
  from Cons.prems obtain s1 where a: "try_candidate ev i d s = Inr s1"
    and b: "delta_loop ev i ds s1 = Inr s'"
    by (auto simp: ebind_Inr_iff)
  from try_candidate_same_or_improved [OF a] Cons.IH [OF b] show ?case by auto
qed

lemma coord_loop_same_or_improved:
  "coord_loop ev cs s = Inr s' \<Longrightarrow> s' = s \<or> improved s'"
proof (induction cs arbitrary: s)
  case Nil
  then show ?case by simp
next
  case (Cons i cs)
  from Cons.prems obtain s1 where a: "delta_loop ev i [step_size, - step_size] s = Inr s1"
    and b: "coord_loop ev cs s1 = Inr s'"
    by (auto simp: ebind_Inr_iff)
  from delta_loop_same_or_improved [OF a] Cons.IH [OF b] show ?case by auto
qed

lemma hill_pass_no_improvement:
  "hill_pass ev p = Inr s1 \<Longrightarrow> \<not> improved s1
   \<Longrightarrow> s1 = p\<lparr>improved := False, iteration := iteration p + 1\<rparr>"
  unfolding hill_pass_def by (drule coord_loop_same_or_improved) auto

lemma hill_loop_last_pass:
  "hill_loop ev s = Inr s' \<Longrightarrow> improved s \<Longrightarrow> \<not> improved s'
   \<Longrightarrow> \<exists>p. hill_pass ev p = Inr (p\<lparr>improved := False, iteration := iteration p + 1\<rparr>)
         \<and> current_weights p = current_weights s' \<and> current_metric p = current_metric s'
         \<and> iteration s' = iteration p + 1"
proof (induction ev s rule: hill_loop.induct)
  case (1 ev s)
  show ?case
  proof (cases "improved s \<and> iteration s < max_iters")
    case False
    with "1.prems" have "s' = s" by (simp add: hill_loop_unfold)
    with "1.prems" show ?thesis by simp
  next
    case True
    with "1.prems"(1) obtain s1 where a: "hill_pass ev s = Inr s1"
      and b: "if \<not> improved s1 then s' = s1\<lparr>stdout := stdout s1 @ [NoImprovement (iteration s1)]\<rparr>
            else hill_loop ev s1 = Inr s'"
      by (auto simp: hill_loop_unfold [of ev s])
    show ?thesis
    proof (cases "improved s1")
      case False
      with b have s': "s' = s1\<lparr>stdout := stdout s1 @ [NoImprovement (iteration s1)]\<rparr>" by simp
      from hill_pass_no_improvement [OF a False]
      have s1: "s1 = s\<lparr>improved := False, iteration := iteration s + 1\<rparr>" .
      have "hill_pass ev s = Inr (s\<lparr>improved := False, iteration := iteration s + 1\<rparr>)"
        using a s1 by simp
      moreover have "current_weights s = current_weights s'" "current_metric s = current_metric s'"
        "iteration s' = iteration s + 1"
        unfolding s' by (subst s1, simp)+
      ultimately show ?thesis by blast
    next
      case i: True
      with b have r: "hill_loop ev s1 = Inr s'" by simp
      have ni: "\<not> \<not> improved s1" using i by simp
      show ?thesis by (rule "1.IH" [OF True a ni r i "1.prems"(3)])
    qed
  qed
qed

lemma try_candidate_total:
  assumes tot: "\<forall>w. length w = 3 \<longrightarrow> (\<exists>m. ev w = Inr m)"
    and len: "length (current_weights s) = 3" and i: "i < 3"
  shows "\<exists>s'. try_candidate ev i d s = Inr s' \<and> length (current_weights s') = 3"
proof -
  have "length ((current_weights s)[i := current_weights s ! i + d]) = 3" using len by simp
  with tot obtain m where "ev ((current_weights s)[i := current_weights s ! i + d]) = Inr m"
    by blast
  with len i show ?thesis by (simp add: try_candidate_def Let_def)
qed

lemma delta_loop_total:
  assumes tot: "\<forall>w. length w = 3 \<longrightarrow> (\<exists>m. ev w = Inr m)" and i: "i < 3"
  shows "length (current_weights s) = 3
    \<Longrightarrow> \<exists>s'. delta_loop ev i ds s = Inr s' \<and> length (current_weights s') = 3"
proof (induction ds arbitrary: s)
  case Nil
  then show ?case by simp
next
  case (Cons d ds)
  from try_candidate_total [OF tot Cons.prems i, of d] obtain s1 where
    a: "try_candidate ev i d s = Inr s1" and b: "length (current_weights s1) = 3" by blast
  from Cons.IH [OF b] a show ?case by simp
qed

lemma coord_loop_total:
  assumes tot: "\<forall>w. length w = 3 \<longrightarrow> (\<exists>m. ev w = Inr m)"
  shows "\<forall>i \<in> set cs. i < 3 \<Longrightarrow> length (current_weights s) = 3
    \<Longrightarrow> \<exists>s'. coord_loop ev cs s = Inr s' \<and> length (current_weights s') = 3"
proof (induction cs arbitrary: s)
  case Nil
  then show ?case by simp
next
  case (Cons i cs)
  from Cons.prems(1) have i: "i < 3" and r: "\<forall>i \<in> set cs. i < 3" by simp_all
  from delta_loop_total [OF tot i Cons.prems(2), of "[step_size, - step_size]"] obtain s1 where
    a: "delta_loop ev i [step_size, - step_size] s = Inr s1"
    and b: "length (current_weights s1) = 3" by blast
  from Cons.IH [OF r b] a show ?case by simp
qed

lemma hill_pass_total:
  assumes tot: "\<forall>w. length w = 3 \<longrightarrow> (\<exists>m. ev w = Inr m)"
    and len: "length (current_weights s) = 3"
  shows "\<exists>s'. hill_pass ev s = Inr s' \<and> length (current_weights s') = 3"
  unfolding hill_pass_def
  by (rule coord_loop_total [OF tot]) (simp_all add: len)

lemma hill_loop_stop:
  assumes "\<not> (improved s \<and> iteration s < max_iters)"
  shows "hill_loop ev s = Inr s"
  using assms by (subst hill_loop.simps) (simp only: if_False)

lemma hill_loop_step:
  assumes "improved s \<and> iteration s < max_iters" and "hill_pass ev s = Inr s1"
  shows "hill_loop ev s =
           (if \<not> improved s1 then Inr (s1\<lparr>stdout := stdout s1 @ [NoImprovement (iteration s1)]\<rparr>)
            else hill_loop ev s1)"
  using assms by (subst hill_loop.simps) (simp only: if_True ebind_Inr simp_thms)

lemma hill_loop_total:
  "\<forall>w. length w = 3 \<longrightarrow> (\<exists>m. ev w = Inr m) \<Longrightarrow> length (current_weights s) = 3
   \<Longrightarrow> \<exists>s'. hill_loop ev s = Inr s'"
proof (induction ev s rule: hill_loop.induct)
  case (1 ev s)
  note tot = "1.prems"(1) and len = "1.prems"(2)
  show ?case
  proof (cases "improved s \<and> iteration s < max_iters")
    case False
    then have "hill_loop ev s = Inr s" by (rule hill_loop_stop)
    then show ?thesis ..
  next
    case True
    from hill_pass_total [OF tot len] obtain s1 where
      a: "hill_pass ev s = Inr s1" and b: "length (current_weights s1) = 3" by blast
    note step = hill_loop_step [OF True a]
    show ?thesis
    proof (cases "improved s1")
      case False
      with step have "hill_loop ev s = Inr (s1\<lparr>stdout := stdout s1 @ [NoImprovement (iteration s1)]\<rparr>)"
        by simp
      then show ?thesis ..
    next
      case i: True
      have ni: "\<not> \<not> improved s1" using i by simp
      from "1.IH" [OF True a ni tot b] obtain s' where r: "hill_loop ev s1 = Inr s'" by blast
      from step i r have "hill_loop ev s = Inr s'" by simp
      then show ?thesis ..
    qed
  qed
qed

lemma hill_climbing_total:
  assumes tot: "\<forall>w. length w = 3 \<longrightarrow> (\<exists>m. ev w = Inr m)"
  shows "\<exists>sf. hill_climbing ev = Inr sf"
proof -
  have "length [0.1, 0.6, 0.3 :: real] = 3" by simp
  with tot obtain m where m: "ev [0.1, 0.6, 0.3] = Inr m" by blast
  have "\<exists>s'. hill_loop ev \<lparr>current_weights = [0.1, 0.6, 0.3], current_metric = m, improved = True,
            iteration = 0, stdout = [Initial [0.1, 0.6, 0.3] m]\<rparr> = Inr s'"
    by (rule hill_loop_total [OF tot]) simp
  then obtain s' where "hill_loop ev \<lparr>current_weights = [0.1, 0.6, 0.3], current_metric = m,
            improved = True, iteration = 0, stdout = [Initial [0.1, 0.6, 0.3] m]\<rparr> = Inr s'" ..
  with m show ?thesis by (simp add: hill_climbing_def hill_init_def)
qed

lemma fill_dict_ok:
  "\<forall>k \<in> set ks. \<exists>v. f k = Inr v \<Longrightarrow> \<exists>r. fill_dict f ks acc = Inr r"
proof (induction ks arbitrary: acc)
  case Nil
  then show ?case by simp
next
  case (Cons k ks)
  from Cons.prems obtain v where v: "f k = Inr v" by auto
  from Cons.prems have "\<forall>k \<in> set ks. \<exists>v. f k = Inr v" by simp
  from Cons.IH [OF this, of "AList.update k v acc"] v show ?case by simp
qed

lemma eval_scores_ok_indep:
  assumes "eval_scores st a b c q = Inr r"
  shows "\<exists>r'. eval_scores st a' b' c' q = Inr r'"
proof -
  from assms obtain qt qd qf where
    m: "map_of (query_emb_title st) q = Some qt" "map_of (query_emb_details st) q = Some qd"
       "map_of (query_emb_feature st) q = Some qf"
    and f: "fill_dict (eval_score st a b c qt qd qf) (keys (doc_emb_title st)) [] = Inr r"
    by (auto simp: eval_scores_def ebind_Inr_iff dict_get_Inr_iff)
  have "\<forall>k \<in> set (keys (doc_emb_title st)). \<exists>v. eval_score st a' b' c' qt qd qf k = Inr v"
  proof
    fix k assume "k \<in> set (keys (doc_emb_title st))"
    from fill_dict_in [OF f this] obtain v where "eval_score st a b c qt qd qf k = Inr v" by blast
    then show "\<exists>v. eval_score st a' b' c' qt qd qf k = Inr v"
      unfolding eval_score_Inr_iff by blast
  qed
  from fill_dict_ok [OF this, of "[]"] m show ?thesis
    by (simp add: eval_scores_def dict_get_def)
qed

lemma eval_ranked_ok_indep:
  assumes "eval_ranked st a b c q = Inr r"
  shows "\<exists>r'. eval_ranked st a' b' c' q = Inr r'"
proof -
  from assms obtain sc where "eval_scores st a b c q = Inr sc"
    by (auto simp: eval_ranked_def ebind_Inr_iff)
  from eval_scores_ok_indep [OF this, of a' b' c'] show ?thesis
    by (auto simp: eval_ranked_def)
qed

lemma eval_loop_ok_indep:
  "eval_loop st a b c rids n = Inr k \<Longrightarrow> \<exists>k'. eval_loop st a' b' c' rids n' = Inr k'"
proof (induction rids arbitrary: n n' k)
  case Nil
  then show ?case by simp
next
  case (Cons r rids)
  from Cons.prems obtain ranked where a: "eval_ranked st a b c r = Inr ranked"
    and b: "eval_loop st a b c rids (if r \<in> set (take 10 ranked) then n + 1 else n) = Inr k"
    by (auto simp: ebind_Inr_iff)
  from eval_ranked_ok_indep [OF a, of a' b' c'] obtain ranked' where
    a': "eval_ranked st a' b' c' r = Inr ranked'" by blast
  from Cons.IH [OF b, of "if r \<in> set (take 10 ranked') then n' + 1 else n'"] a'
  show ?case by simp
qed

lemma eval_metric_ok_indep:
  assumes "eval_metric st [a, b, c] = Inr m"
  shows "\<exists>m'. eval_metric st [a', b', c'] = Inr m'"
proof -
  from assms obtain k where l: "eval_loop st a b c (keys (query_emb_title st)) 0 = Inr k"
    and t: "truediv k (length (query_emb_title st)) = Inr m"
    by (auto simp: eval_metric_def ebind_Inr_iff)
  from t have nz: "length (query_emb_title st) \<noteq> 0" by (auto simp: truediv_def split: if_splits)
  from eval_loop_ok_indep [OF l, of a' b' c' 0] obtain k' where
    "eval_loop st a' b' c' (keys (query_emb_title st)) 0 = Inr k'" by blast
  with nz show ?thesis by (simp add: eval_metric_def truediv_def)
qed

lemma eval_metric_total:
  assumes "eval_metric st [0.1, 0.6, 0.3] = Inr m"
  shows "\<forall>w. length w = 3 \<longrightarrow> (\<exists>m'. eval_metric st w = Inr m')"
proof (intro allI impI)
  fix w :: "real list" assume "length w = 3"
  then obtain a b c where "w = [a, b, c]"
    by (cases w; cases "tl w"; cases "tl (tl w)") auto
  with eval_metric_ok_indep [OF assms] show "\<exists>m'. eval_metric st w = Inr m'" by simp
qed



subsection \<open>One iteration against the spec\<close>

lemma ebind_assoc: "ebind (ebind m f) g = ebind m (\<lambda>x. ebind (f x) g)"
  by (cases m) simp_all

lemma ebind_Inr_right: "ebind m Inr = m"
  by (cases m) simp_all

lemma delta_loop_two:
  "delta_loop ev i [d1, d2] s = ebind (try_candidate ev i d1 s) (try_candidate ev i d2)"
proof -
  have "delta_loop ev i [d2] = try_candidate ev i d2"
    by (rule ext) (simp add: ebind_def split: sum.splits)
  then show ?thesis by simp
qed

lemma coord_loop_Nil_fun: "coord_loop ev [] = Inr"
  by (rule ext) simp

lemma coord_loop_Cons_fun:
  "coord_loop ev (i # cs) =
     (\<lambda>s. ebind (try_candidate ev i step_size s) (\<lambda>s.
          ebind (try_candidate ev i (- step_size) s) (coord_loop ev cs)))"
  by (rule ext) (simp add: delta_loop_two ebind_assoc)

lemma hill_pass_flat:
  "hill_pass ev s =
     ebind (try_candidate ev 0 0.05 (s\<lparr>improved := False, iteration := iteration s + 1\<rparr>)) (\<lambda>s.
     ebind (try_candidate ev 0 (- 0.05) s) (\<lambda>s.
     ebind (try_candidate ev 1 0.05 s) (\<lambda>s.
     ebind (try_candidate ev 1 (- 0.05) s) (\<lambda>s.
     ebind (try_candidate ev 2 0.05 s) (\<lambda>s.
     try_candidate ev 2 (- 0.05) s)))))"
proof -
  have "[0..<3] = [0, 1, 2::nat]" by (simp add: upt_rec)
  then show ?thesis
    by (simp only: hill_pass_def coord_loop_Cons_fun coord_loop_Nil_fun ebind_Inr_right step_size_def)
qed

lemma try_candidate_refines:
  assumes len: "length (current_weights s) = 3" and i: "i < 3"
  shows "map_sum id abs_state (try_candidate ev i d s)
           = spec_candidate (\<lambda>(a, b, c). ev [a, b, c]) i d (abs_state s)"
    and "\<forall>s'. try_candidate ev i d s = Inr s' \<longrightarrow> length (current_weights s') = 3"
proof -
  from len obtain a b c where w: "current_weights s = [a, b, c]"
    by (cases "current_weights s"; cases "tl (current_weights s)"; cases "tl (tl (current_weights s))") auto
  from i have "i = 0 \<or> i = Suc 0 \<or> i = Suc (Suc 0)" by arith
  then show "map_sum id abs_state (try_candidate ev i d s)
           = spec_candidate (\<lambda>(a, b, c). ev [a, b, c]) i d (abs_state s)"
    by (auto simp: try_candidate_def spec_candidate_def abs_state_def w Let_def ebind_def
        split: sum.splits)
  show "\<forall>s'. try_candidate ev i d s = Inr s' \<longrightarrow> length (current_weights s') = 3"
    using len by (auto dest!: try_candidate_cases)
qed

lemma refine_bind:
  assumes "map_sum id abs_state m = m'"
    and "\<forall>x. m = Inr x \<longrightarrow> length (current_weights x) = 3"
    and "\<And>x. length (current_weights x) = 3 \<Longrightarrow> map_sum id abs_state (f x) = g (abs_state x)"
  shows "map_sum id abs_state (ebind m f) = ebind m' g"
  using assms by (cases m) auto

lemma refine_seq:
  assumes "i < 3"
    and "\<And>x. length (current_weights x) = 3 \<Longrightarrow> map_sum id abs_state (f x) = g (abs_state x)"
    and "length (current_weights x) = 3"
  shows "map_sum id abs_state (ebind (try_candidate ev i d x) f)
           = ebind (spec_candidate (\<lambda>(a, b, c). ev [a, b, c]) i d (abs_state x)) g"
  by (rule refine_bind)
     (simp_all add: try_candidate_refines [OF assms(3) assms(1)] assms(2))

lemma hill_pass_length:
  assumes "length (current_weights s) = 3" and "hill_pass ev s = Inr s'"
  shows "length (current_weights s') = 3"
proof (rule hill_pass_invariant [where P = "\<lambda>x. length (current_weights x) = 3", OF _ _ assms])
  show "\<And>i d s s'. length (current_weights s) = 3 \<Longrightarrow> i < 3 \<Longrightarrow> try_candidate ev i d s = Inr s'
      \<Longrightarrow> length (current_weights s') = 3"
    using try_candidate_refines(2) by blast
  show "\<And>s b n. length (current_weights s) = 3
      \<Longrightarrow> length (current_weights (s\<lparr>improved := b, iteration := n\<rparr>)) = 3"
    by simp
qed

text \<open>
  C3. One iteration of the script's loop is the sequence of the six candidate steps
  (coordinate 0 with +0.05 then -0.05, coordinate 1 likewise, coordinate 2 likewise), each
  working on the state the previous one left; read on weight triples it is the iteration the
  spec describes: a candidate with a negative perturbed component is rejected, a candidate
  whose metric strictly exceeds the current best is accepted at once.
\<close>

theorem hill_pass_refines_spec:
  assumes len: "length (current_weights s) = 3"
  shows "hill_pass ev s =
           ebind (try_candidate ev 0 0.05 (s\<lparr>improved := False, iteration := iteration s + 1\<rparr>)) (\<lambda>s.
           ebind (try_candidate ev 0 (- 0.05) s) (\<lambda>s.
           ebind (try_candidate ev 1 0.05 s) (\<lambda>s.
           ebind (try_candidate ev 1 (- 0.05) s) (\<lambda>s.
           ebind (try_candidate ev 2 0.05 s) (\<lambda>s.
           try_candidate ev 2 (- 0.05) s)))))
       \<and> map_sum id abs_state (hill_pass ev s)
           = spec_iteration (\<lambda>(a, b, c). ev [a, b, c])
               (current_weights s ! 0, current_weights s ! 1, current_weights s ! 2)
               (current_metric s)
       \<and> (\<forall>s'. hill_pass ev s = Inr s' \<longrightarrow> length (current_weights s') = 3)"
proof (intro conjI)
  show "hill_pass ev s =
           ebind (try_candidate ev 0 0.05 (s\<lparr>improved := False, iteration := iteration s + 1\<rparr>)) (\<lambda>s.
           ebind (try_candidate ev 0 (- 0.05) s) (\<lambda>s.
           ebind (try_candidate ev 1 0.05 s) (\<lambda>s.
           ebind (try_candidate ev 1 (- 0.05) s) (\<lambda>s.
           ebind (try_candidate ev 2 0.05 s) (\<lambda>s.
           try_candidate ev 2 (- 0.05) s)))))"
    by (rule hill_pass_flat)
  have a0: "((current_weights s ! 0, current_weights s ! 1, current_weights s ! 2),
              current_metric s, False)
            = abs_state (s\<lparr>improved := False, iteration := iteration s + 1\<rparr>)"
    by (simp add: abs_state_def)
  have l0: "length (current_weights (s\<lparr>improved := False, iteration := iteration s + 1\<rparr>)) = 3"
    using len by simp
  show "map_sum id abs_state (hill_pass ev s)
           = spec_iteration (\<lambda>(a, b, c). ev [a, b, c])
               (current_weights s ! 0, current_weights s ! 1, current_weights s ! 2)
               (current_metric s)"
    unfolding hill_pass_flat spec_iteration_def a0
    apply (rule refine_seq, simp)
      apply (rule refine_seq, simp)
        apply (rule refine_seq, simp)
          apply (rule refine_seq, simp)
            apply (rule refine_seq, simp)
              apply (rule try_candidate_refines(1), assumption, simp)
             apply assumption+
    apply (rule l0)
    done
  show "\<forall>s'. hill_pass ev s = Inr s' \<longrightarrow> length (current_weights s') = 3"
    using hill_pass_length [OF len] by blast
qed

theorem hill_pass_refines_spec_witness:
  "length [0.1, 0.6, 0.3 :: real] = 3
   \<and> hill_pass ex_ev \<lparr>current_weights = [0.1, 0.6, 0.3], current_metric = 0, improved = True,
        iteration = 0, stdout = []\<rparr>
       = Inr \<lparr>current_weights = [0.15, 0.6, 0.3], current_metric = 1, improved = True,
              iteration = 1, stdout = [Improved 1 [0.15, 0.6, 0.3] 1]\<rparr>
   \<and> spec_iteration (\<lambda>(a, b, c). ex_ev [a, b, c]) (0.1, 0.6, 0.3) 0
       = Inr ((0.15, 0.6, 0.3), 1, True)"
proof -
  have l: "length (current_weights \<lparr>current_weights = [0.1, 0.6, 0.3], current_metric = 0,
        improved = True, iteration = 0, stdout = []\<rparr>) = 3" by simp
  have h: "hill_pass ex_ev \<lparr>current_weights = [0.1, 0.6, 0.3], current_metric = 0, improved = True,
        iteration = 0, stdout = []\<rparr>
       = Inr \<lparr>current_weights = [0.15, 0.6, 0.3], current_metric = 1, improved = True,
              iteration = 1, stdout = [Improved 1 [0.15, 0.6, 0.3] 1]\<rparr>"
    by (simp add: hill_pass_def upt_3 try_candidate_def step_size_def Let_def)
  from hill_pass_refines_spec [OF l, of ex_ev, THEN conjunct2, THEN conjunct1]
  have "map_sum id abs_state (hill_pass ex_ev \<lparr>current_weights = [0.1, 0.6, 0.3],
          current_metric = 0, improved = True, iteration = 0, stdout = []\<rparr>)
        = spec_iteration (\<lambda>(a, b, c). ex_ev [a, b, c]) (0.1, 0.6, 0.3) 0"
    by simp
  with h have "spec_iteration (\<lambda>(a, b, c). ex_ev [a, b, c]) (0.1, 0.6, 0.3) 0
       = Inr ((0.15, 0.6, 0.3), 1, True)"
    by (simp add: abs_state_def)
  with h show ?thesis by simp
qed

subsection \<open>Linearity and scaling of the composite score\<close>

lemma eval_score_linear:
  assumes "eval_score st a b c qt qd qf d = Inr v" and "eval_score st a' b' c' qt qd qf d = Inr v'"
  shows "eval_score st (x * a + y * a') (x * b + y * b') (x * c + y * c') qt qd qf d
           = Inr (x * v + y * v')"
proof -
  from assms(1) obtain dt dd df where
    m: "map_of (doc_emb_title st) d = Some dt" "map_of (doc_emb_details st) d = Some dd"
       "map_of (doc_emb_feature st) d = Some df"
    and l: "length qt = length dt" "length qd = length dd" "length qf = length df"
    and v: "v = a * dotr qt dt + b * dotr qd dd + c * dotr qf df"
    unfolding eval_score_Inr_iff by blast
  from assms(2) m have v': "v' = a' * dotr qt dt + b' * dotr qd dd + c' * dotr qf df"
    unfolding eval_score_Inr_iff by auto
  have "x * v + y * v' = (x * a + y * a') * dotr qt dt + (x * b + y * b') * dotr qd dd
          + (x * c + y * c') * dotr qf df"
    unfolding v v' by (simp add: algebra_simps)
  with m l show ?thesis unfolding eval_score_Inr_iff by simp
qed

lemma eval_score_scale:
  "eval_score st (k * a) (k * b) (k * c) qt qd qf d
     = map_sum id ((*) k) (eval_score st a b c qt qd qf d)"
  unfolding eval_score_def
  by (simp add: ebind_def algebra_simps split: sum.splits)

lemma update_map_apsnd:
  "AList.update key (h v) (map (apsnd h) acc) = map (apsnd h) (AList.update key v acc)"
  by (induction acc) auto

lemma fill_dict_map:
  assumes "\<And>key. f' key = map_sum id h (f key)"
  shows "fill_dict f' ks (map (apsnd h) acc) = map_sum id (map (apsnd h)) (fill_dict f ks acc)"
proof (induction ks arbitrary: acc)
  case Nil
  show ?case by simp
next
  case (Cons key ks)
  show ?case
  proof (cases "f key")
    case (Inl e)
    then show ?thesis by (simp add: assms)
  next
    case (Inr v)
    with Cons.IH [of "AList.update key v acc"] show ?thesis
      by (simp add: assms update_map_apsnd)
  qed
qed

lemma eval_scores_scale:
  "eval_scores st (k * a) (k * b) (k * c) q
     = map_sum id (map (apsnd ((*) k))) (eval_scores st a b c q)"
proof -
  have f: "fill_dict (eval_score st (k * a) (k * b) (k * c) qt qd qf) ks []
         = map_sum id (map (apsnd ((*) k))) (fill_dict (eval_score st a b c qt qd qf) ks [])"
    for qt qd qf ks
    using fill_dict_map [of "eval_score st (k * a) (k * b) (k * c) qt qd qf" "(*) k"
        "eval_score st a b c qt qd qf" ks "[]"]
    by (simp add: eval_score_scale)
  show ?thesis
    unfolding eval_scores_def f
    by (simp add: ebind_def split: sum.splits)
qed

lemma insort_key_equiv:
  assumes "\<And>x y. f x \<le> f y \<longleftrightarrow> g x \<le> g y"
  shows "insort_key f x xs = insort_key g x xs"
  by (induction xs) (simp_all add: assms)

lemma sort_key_equiv:
  assumes "\<And>x y. f x \<le> f y \<longleftrightarrow> g x \<le> g y"
  shows "sort_key f xs = sort_key g xs"
proof (induction xs)
  case Nil
  show ?case by simp
next
  case (Cons x xs)
  then show ?case using insort_key_equiv [of f g, OF assms] by simp
qed

lemma sorted_desc_scale:
  assumes "0 < k"
  shows "sorted_desc (map (apsnd ((*) k)) scores) = sorted_desc scores"
proof -
  have "sort_key (\<lambda>p. - snd p) (map (apsnd ((*) k)) scores)
      = map (apsnd ((*) k)) (sort_key (\<lambda>y. - snd (apsnd ((*) k) y)) scores)"
    by (rule sort_key_map)
  also have "sort_key (\<lambda>y. - snd (apsnd ((*) k) y)) scores = sort_key (\<lambda>p. - snd p) scores"
    by (rule sort_key_equiv) (simp add: assms)
  finally show ?thesis by (simp add: sorted_desc_def comp_def)
qed

lemma eval_ranked_scale:
  assumes "0 < k"
  shows "eval_ranked st (k * a) (k * b) (k * c) q = eval_ranked st a b c q"
  unfolding eval_ranked_def eval_scores_scale
  by (cases "eval_scores st a b c q") (simp_all add: sorted_desc_scale [OF assms])

lemma eval_loop_scale:
  assumes "0 < k"
  shows "eval_loop st (k * a) (k * b) (k * c) rids n = eval_loop st a b c rids n"
  by (induction rids arbitrary: n) (simp_all add: eval_ranked_scale [OF assms])

lemma eval_metric_scale:
  assumes "0 < k"
  shows "eval_metric st [k * a, k * b, k * c] = eval_metric st [a, b, c]"
  by (simp add: eval_metric_def eval_loop_scale [OF assms])

lemma cx_caches_eq:
  "cx_caches =
     \<lparr>data_dict = [(''B'', cx_data ! 0), (''A'', cx_data ! 1)],
      query_emb_title = [(''B'', [1]), (''A'', [1])],
      query_emb_details = [(''B'', [1]), (''A'', [1])],
      query_emb_feature = [(''B'', [1]), (''A'', [1])],
      doc_emb_title = [(''B'', [0]), (''A'', [3])],
      doc_emb_details = [(''B'', [0]), (''A'', [0])],
      doc_emb_feature = [(''B'', [1]), (''A'', [0])]\<rparr>"
  by (simp add: cx_caches_def build_caches_def empty_caches_def embed_element_def cx_emb_def
      cx_data_def Let_def)

lemma f64_tenth: "fl 0.1 = 3602879701896397 / 36028797018963968"
  by code_simp

lemma f64_six_tenths: "fl 0.6 = 5404319552844595 / 9007199254740992"
  by code_simp

lemma f64_three_tenths: "fl 0.3 = 5404319552844595 / 18014398509481984"
  by code_simp

lemma f64_ten_tenth: "fmul 10 (3602879701896397 / 36028797018963968) = 1"
  by code_simp

lemma f64_ten_six_tenths: "fmul 10 (5404319552844595 / 9007199254740992) = 6"
  by code_simp

lemma f64_ten_three_tenths: "fmul 10 (5404319552844595 / 18014398509481984) = 3"
  by code_simp

lemma f64_score_A:
  "composite_f64 (3602879701896397 / 36028797018963968) (5404319552844595 / 9007199254740992)
     (5404319552844595 / 18014398509481984) 3 0 0 = 1351079888211149 / 4503599627370496"
  by code_simp

lemma f64_score_B:
  "composite_f64 (3602879701896397 / 36028797018963968) (5404319552844595 / 9007199254740992)
     (5404319552844595 / 18014398509481984) 0 0 1 = 5404319552844595 / 18014398509481984"
  by code_simp

lemma f64_score_A_scaled: "composite_f64 1 6 3 3 0 0 = 3"
  by code_simp

lemma f64_score_B_scaled: "composite_f64 1 6 3 0 0 1 = 3"
  by code_simp

lemma cx_scores:
  "eval_scores_f64 cx_caches (fl 0.1) (fl 0.6) (fl 0.3) ''B''
     = Inr [(''B'', 5404319552844595 / 18014398509481984),
            (''A'', 1351079888211149 / 4503599627370496)]"
  unfolding f64_tenth f64_six_tenths f64_three_tenths
  by (simp add: cx_caches_eq eval_scores_f64_def eval_score_f64_def dict_get_def keys_def
      dot_product_def dotr_def f64_score_A f64_score_B)

lemma cx_scores_scaled:
  "eval_scores_f64 cx_caches (fmul 10 (fl 0.1)) (fmul 10 (fl 0.6)) (fmul 10 (fl 0.3)) ''B''
     = Inr [(''B'', 3), (''A'', 3)]"
  unfolding f64_tenth f64_six_tenths f64_three_tenths
    f64_ten_tenth f64_ten_six_tenths f64_ten_three_tenths
  by (simp add: cx_caches_eq eval_scores_f64_def eval_score_f64_def dict_get_def keys_def
      dot_product_def dotr_def f64_score_A_scaled f64_score_B_scaled)


lemma cx_exact_scores:
  "eval_scores cx_caches 0.1 0.6 0.3 ''B'' = Inr [(''B'', 3 / 10), (''A'', 3 / 10)]"
  by (simp add: cx_caches_eq eval_scores_def eval_score_def dict_get_def keys_def
      dot_product_def dotr_def)



subsection \<open>The dataset scraper\<close>

lemma process_dataset_hom:
  "process_dataset g k info st =
     \<lparr>dataset_info_list = dataset_info_list st @ dataset_info_list (process_dataset g k info empty_scrape),
      printed = printed st @ printed (process_dataset g k info empty_scrape)\<rparr>"
  by (simp add: process_dataset_def try_body_def empty_scrape_def info_index_def
      split: sum.splits option.splits)

lemma process_dataset_hom_sel:
  "dataset_info_list (process_dataset g k info st)
     = dataset_info_list st @ dataset_info_list (process_dataset g k info empty_scrape)"
  "printed (process_dataset g k info st)
     = printed st @ printed (process_dataset g k info empty_scrape)"
  by (subst process_dataset_hom, simp)+

lemma scrape_loop_hom:
  "scrape_loop g ds st =
     \<lparr>dataset_info_list = dataset_info_list st @ dataset_info_list (scrape_loop g ds empty_scrape),
      printed = printed st @ printed (scrape_loop g ds empty_scrape)\<rparr>"
proof (induction ds arbitrary: st)
  case Nil
  show ?case by (simp add: empty_scrape_def)
next
  case (Cons p ds)
  obtain k info where p: "p = (k, info)" by (cases p)
  have A: "scrape_loop g ds (process_dataset g k info st) =
     \<lparr>dataset_info_list = dataset_info_list (process_dataset g k info st)
         @ dataset_info_list (scrape_loop g ds empty_scrape),
      printed = printed (process_dataset g k info st) @ printed (scrape_loop g ds empty_scrape)\<rparr>"
    by (rule Cons.IH)
  have B: "scrape_loop g ds (process_dataset g k info empty_scrape) =
     \<lparr>dataset_info_list = dataset_info_list (process_dataset g k info empty_scrape)
         @ dataset_info_list (scrape_loop g ds empty_scrape),
      printed = printed (process_dataset g k info empty_scrape)
         @ printed (scrape_loop g ds empty_scrape)\<rparr>"
    by (rule Cons.IH)
  show ?case
    unfolding p scrape_loop.simps A B
    by (simp add: process_dataset_hom_sel [of g k info st])
qed

lemma scrape_loop_append:
  "scrape_loop g (ds1 @ ds2) st = scrape_loop g ds2 (scrape_loop g ds1 st)"
  by (induction ds1 arbitrary: st) auto

lemma scrape_append:
  "scrape g (ds1 @ ds2) =
     \<lparr>dataset_info_list = dataset_info_list (scrape g ds1) @ dataset_info_list (scrape g ds2),
      printed = printed (scrape g ds1) @ printed (scrape g ds2)\<rparr>"
  unfolding scrape_def empty_scrape_def [symmetric] scrape_loop_append
  by (subst scrape_loop_hom) simp

lemma scrape_Cons:
  "scrape g ((k, info) # ds) =
     \<lparr>dataset_info_list = dataset_info_list (process_dataset g k info empty_scrape)
         @ dataset_info_list (scrape g ds),
      printed = printed (process_dataset g k info empty_scrape) @ printed (scrape g ds)\<rparr>"
  unfolding scrape_def empty_scrape_def [symmetric] scrape_loop.simps
  by (subst scrape_loop_hom) simp

lemma process_dataset_error:
  "g k = Inl e \<Longrightarrow> process_dataset g k info st = st\<lparr>printed := printed st @ [ErrorFetching k e]\<rparr>"
  by (simp add: process_dataset_def try_body_def)

lemma str_truthy: "is_str v \<Longrightarrow> truthy v \<Longrightarrow> \<exists>s. v = PStr s \<and> s \<noteq> []"
  by (cases v) auto

lemma process_dataset_entries_cases:
  assumes "en \<in> set (dataset_info_list (process_dataset g k info empty_scrape))"
  shows "\<exists>ds name. g k = Inr ds \<and> k \<noteq> 0 \<and> truthy name \<and> is_str name
           \<and> truthy (description ds) \<and> is_str (description ds)
           \<and> en = \<lparr>entry_id = k, entry_title = name, entry_description = description ds\<rparr>"
  using assms
  by (auto simp: process_dataset_def try_body_def empty_scrape_def info_index_def info_get_def
      split: sum.splits option.splits if_splits)

lemma process_dataset_entries:
  assumes "en \<in> set (dataset_info_list (process_dataset g k info empty_scrape))"
  shows "entry_id en = k \<and> k \<noteq> 0 \<and> (\<exists>t d. entry_title en = PStr t \<and> t \<noteq> []
         \<and> entry_description en = PStr d \<and> d \<noteq> [])"
proof -
  from process_dataset_entries_cases [OF assms] obtain ds :: dataset and name where
    k: "k \<noteq> 0" and n: "truthy name" "is_str name"
    and d: "truthy (description ds)" "is_str (description ds)"
    and en: "en = \<lparr>entry_id = k, entry_title = name, entry_description = description ds\<rparr>"
    by blast
  from str_truthy [OF n(2) n(1)] obtain t where t: "name = PStr t" "t \<noteq> []" by blast
  from str_truthy [OF d(2) d(1)] obtain x where x: "description ds = PStr x" "x \<noteq> []" by blast
  show ?thesis using k t x by (simp add: en)
qed

lemma process_dataset_other:
  "g' k' = g k' \<Longrightarrow> process_dataset g' k' info st = process_dataset g k' info st"
  by (simp add: process_dataset_def try_body_def)

lemma scrape_entries_valid:
  "en \<in> set (dataset_info_list (scrape g ds))
   \<Longrightarrow> \<exists>t d. entry_title en = PStr t \<and> t \<noteq> [] \<and> entry_description en = PStr d \<and> d \<noteq> []"
proof (induction ds)
  case Nil
  then show ?case by (simp add: scrape_def)
next
  case (Cons p ds)
  obtain k info where p: "p = (k, info)" by (cases p)
  from Cons.prems have "en \<in> set (dataset_info_list (process_dataset g k info empty_scrape))
      \<or> en \<in> set (dataset_info_list (scrape g ds))"
    unfolding p scrape_Cons by simp
  then show ?case using Cons.IH process_dataset_entries [of en g k info] by blast
qed

lemma scrape_failure_filter:
  assumes f: "g' k = Inl e" and o: "\<And>k'. k' \<noteq> k \<Longrightarrow> g' k' = g k'"
  shows "dataset_info_list (scrape g' ds)
     = filter (\<lambda>en. entry_id en \<noteq> k) (dataset_info_list (scrape g ds))"
proof (induction ds)
  case Nil
  show ?case by (simp add: scrape_def)
next
  case (Cons p ds)
  obtain k' info where p: "p = (k', info)" by (cases p)
  show ?case
  proof (cases "k' = k")
    case True
    have "process_dataset g' k info empty_scrape
        = empty_scrape\<lparr>printed := printed empty_scrape @ [ErrorFetching k e]\<rparr>"
      using f by (rule process_dataset_error)
    then have a: "dataset_info_list (process_dataset g' k info empty_scrape) = []"
      by (simp add: empty_scrape_def)
    have "\<forall>en \<in> set (dataset_info_list (process_dataset g k info empty_scrape)). entry_id en = k"
      using process_dataset_entries by blast
    then have b: "filter (\<lambda>en. entry_id en \<noteq> k)
        (dataset_info_list (process_dataset g k info empty_scrape)) = []"
      by (simp add: filter_empty_conv)
    show ?thesis unfolding p True scrape_Cons using a b Cons.IH by simp
  next
    case False
    have a: "process_dataset g' k' info empty_scrape = process_dataset g k' info empty_scrape"
      by (rule process_dataset_other) (rule o [OF False])
    have "\<forall>en \<in> set (dataset_info_list (process_dataset g k' info empty_scrape)). entry_id en \<noteq> k"
      using process_dataset_entries False by blast
    then have b: "filter (\<lambda>en. entry_id en \<noteq> k)
        (dataset_info_list (process_dataset g k' info empty_scrape))
          = dataset_info_list (process_dataset g k' info empty_scrape)"
      by (simp add: filter_id_conv)
    show ?thesis unfolding p scrape_Cons using a b Cons.IH by simp
  qed
qed

lemma ex_scrape:
  "scrape ex_get ex_list =
     \<lparr>dataset_info_list =
        [\<lparr>entry_id = 1, entry_title = PStr ''iris'', entry_description = PStr ''desc''\<rparr>,
         \<lparr>entry_id = 3, entry_title = PStr ''wine'', entry_description = PStr ''desc''\<rparr>],
      printed = [Processed 1 (PStr ''iris''), ErrorFetching 2 ''timeout'',
                 Processed 3 (PStr ''wine'')]\<rparr>"
  by (simp add: scrape_def ex_list_def ex_get_def process_dataset_def try_body_def info_get_def
      info_index_def)

lemma ex_scrape_ok:
  "dataset_info_list (scrape ex_ok ex_list) =
        [\<lparr>entry_id = 1, entry_title = PStr ''iris'', entry_description = PStr ''desc''\<rparr>,
         \<lparr>entry_id = 2, entry_title = PStr ''bad'', entry_description = PStr ''desc''\<rparr>,
         \<lparr>entry_id = 3, entry_title = PStr ''wine'', entry_description = PStr ''desc''\<rparr>]"
  by (simp add: scrape_def ex_list_def ex_ok_def process_dataset_def try_body_def info_get_def
      info_index_def)

text \<open>
  C9. When fetching the dataset \<open>k\<close> raises, the exception is caught and one line naming \<open>k\<close>
  is printed; the loop goes on: the output of a listing that contains \<open>k\<close> is the output for
  the ids before it followed by the output for the ids after it, and the printed lines are
  those of the ids before, the error line, and those of the ids after. Against a fetch
  function that differs only in failing at \<open>k\<close>, the output loses exactly the entries of id
  \<open>k\<close>. Every entry written has a non-empty string title and a non-empty string description.
\<close>

theorem scrape_resilient:
  "(get_dataset k = Inl e \<longrightarrow>
       process_dataset get_dataset k info st = st\<lparr>printed := printed st @ [ErrorFetching k e]\<rparr>
     \<and> dataset_info_list (scrape get_dataset (before @ (k, info) # after))
         = dataset_info_list (scrape get_dataset before) @ dataset_info_list (scrape get_dataset after)
     \<and> printed (scrape get_dataset (before @ (k, info) # after))
         = printed (scrape get_dataset before) @ [ErrorFetching k e] @ printed (scrape get_dataset after))
   \<and> (get_dataset' k = Inl e \<and> (\<forall>k'. k' \<noteq> k \<longrightarrow> get_dataset' k' = get_dataset k') \<longrightarrow>
        dataset_info_list (scrape get_dataset' ds)
          = filter (\<lambda>en. entry_id en \<noteq> k) (dataset_info_list (scrape get_dataset ds)))
   \<and> (\<forall>en \<in> set (dataset_info_list (scrape get_dataset ds)).
         \<exists>t d. entry_title en = PStr t \<and> t \<noteq> [] \<and> entry_description en = PStr d \<and> d \<noteq> [])"
proof (intro conjI impI ballI)
  assume f: "get_dataset k = Inl e"
  show "process_dataset get_dataset k info st = st\<lparr>printed := printed st @ [ErrorFetching k e]\<rparr>"
    using f by (rule process_dataset_error)
  have one: "process_dataset get_dataset k info empty_scrape
      = \<lparr>dataset_info_list = [], printed = [ErrorFetching k e]\<rparr>"
    using f by (simp add: process_dataset_error [of get_dataset k e] empty_scrape_def)
  show "dataset_info_list (scrape get_dataset (before @ (k, info) # after))
         = dataset_info_list (scrape get_dataset before) @ dataset_info_list (scrape get_dataset after)"
    by (simp add: scrape_append scrape_Cons one)
  show "printed (scrape get_dataset (before @ (k, info) # after))
         = printed (scrape get_dataset before) @ [ErrorFetching k e] @ printed (scrape get_dataset after)"
    by (simp add: scrape_append scrape_Cons one)
next
  assume "get_dataset' k = Inl e \<and> (\<forall>k'. k' \<noteq> k \<longrightarrow> get_dataset' k' = get_dataset k')"
  then show "dataset_info_list (scrape get_dataset' ds)
       = filter (\<lambda>en. entry_id en \<noteq> k) (dataset_info_list (scrape get_dataset ds))"
    by (intro scrape_failure_filter) auto
next
  fix en assume "en \<in> set (dataset_info_list (scrape get_dataset ds))"
  then show "\<exists>t d. entry_title en = PStr t \<and> t \<noteq> [] \<and> entry_description en = PStr d \<and> d \<noteq> []"
    by (rule scrape_entries_valid)
qed

theorem scrape_resilient_witness:
  "ex_get 2 = Inl ''timeout''
   \<and> scrape ex_get ex_list =
     \<lparr>dataset_info_list =
        [\<lparr>entry_id = 1, entry_title = PStr ''iris'', entry_description = PStr ''desc''\<rparr>,
         \<lparr>entry_id = 3, entry_title = PStr ''wine'', entry_description = PStr ''desc''\<rparr>],
      printed = [Processed 1 (PStr ''iris''), ErrorFetching 2 ''timeout'',
                 Processed 3 (PStr ''wine'')]\<rparr>
   \<and> dataset_info_list (scrape ex_get ex_list)
       = filter (\<lambda>en. entry_id en \<noteq> 2) (dataset_info_list (scrape ex_ok ex_list))
   \<and> dataset_info_list (scrape ex_get ([(1, [(''name'', PStr ''iris'')])]
         @ (2, [(''name'', PStr ''bad'')]) # [(3, [(''name'', PStr ''wine'')])]))
       = dataset_info_list (scrape ex_get [(1, [(''name'', PStr ''iris'')])])
         @ dataset_info_list (scrape ex_get [(3, [(''name'', PStr ''wine'')])])"
proof -
  have f: "ex_get 2 = Inl ''timeout''" by (simp add: ex_get_def)
  have o: "ex_get 2 = Inl ''timeout'' \<and> (\<forall>k'. k' \<noteq> 2 \<longrightarrow> ex_get k' = ex_ok k')"
    by (simp add: ex_get_def ex_ok_def)
  note t = scrape_resilient [where get_dataset = ex_get and k = 2 and e = "''timeout''"
      and info = "[(''name'', PStr ''bad'')]" and st = empty_scrape
      and before = "[(1, [(''name'', PStr ''iris'')])]" and after = "[(3, [(''name'', PStr ''wine'')])]"
      and get_dataset' = ex_get and ds = ex_list]
  note t' = scrape_resilient [where get_dataset = ex_ok and get_dataset' = ex_get and k = 2
      and e = "''timeout''" and ds = ex_list]
  from t' o have a: "dataset_info_list (scrape ex_get ex_list)
       = filter (\<lambda>en. entry_id en \<noteq> 2) (dataset_info_list (scrape ex_ok ex_list))"
    by blast
  from t f have b: "dataset_info_list (scrape ex_get ([(1, [(''name'', PStr ''iris'')])]
         @ (2, [(''name'', PStr ''bad'')]) # [(3, [(''name'', PStr ''wine'')])]))
       = dataset_info_list (scrape ex_get [(1, [(''name'', PStr ''iris'')])])
         @ dataset_info_list (scrape ex_get [(3, [(''name'', PStr ''wine'')])])"
    by blast
  from f ex_scrape a b show ?thesis by (simp only: simp_thms)
qed

end
